theory Spec2Isabelle
  imports Main "HOL-Library.Multiset"
begin

section \<open>Strings and characters\<close>

text \<open>
  A JavaScript string is modelled as an Isabelle \<open>string\<close>; each \<open>char\<close> stands for one
  code unit below 256 (the Latin-1 range).  Numbers are \<open>int\<close> (scores) or \<open>nat\<close>
  (array indices); all arithmetic of the source stays far inside the exact range of a
  double.  The fields of a record carry a prefix that names the record (\<open>meta_\<close>,
  \<open>branch_\<close>, \<open>pattern_\<close>, \<open>pm_\<close> for \<open>PathMatch\<close>, \<open>rm_\<close> for \<open>RouteMatch\<close>, \<open>to_\<close>
  for a partial path, \<open>path_\<close>, \<open>re_\<close>, \<open>route_\<close>), since several records of the source
  share field names.
\<close>

text \<open>\<open>s.split('/')\<close>: never empty, \<open>''.split('/')\<close> is \<open>['']\<close>.\<close>

fun split :: "string \<Rightarrow> string list" where
  "split [] = [[]]"
| "split (c # cs) =
     (if c = CHR ''/'' then [] # split cs
      else (case split cs of [] \<Rightarrow> [[c]] | seg # segs \<Rightarrow> (c # seg) # segs))"

text \<open>\<open>xs.join('/')\<close>.\<close>

fun join :: "string list \<Rightarrow> string" where
  "join [] = []"
| "join [s] = s"
| "join (s # t # ss) = s @ CHR ''/'' # join (t # ss)"

definition startsWith :: "string \<Rightarrow> string \<Rightarrow> bool" where
  "startsWith s p = (take (length p) s = p)"

definition endsWith :: "string \<Rightarrow> string \<Rightarrow> bool" where
  "endsWith s p = (length p \<le> length s \<and> drop (length s - length p) s = p)"

text \<open>\<open>s.slice(i, j)\<close> for \<open>0 \<le> i \<le> j\<close>.\<close>

definition slice :: "string \<Rightarrow> nat \<Rightarrow> nat \<Rightarrow> string" where
  "slice s i j = take (j - i) (drop i s)"

text \<open>The class \<open>\w\<close> of a regular expression: \<open>[A-Za-z0-9_]\<close>.\<close>

definition isWordChar :: "char \<Rightarrow> bool" where
  "isWordChar c =
     (c \<in> set ''abcdefghijklmnopqrstuvwxyzABCDEFGHIJKLMNOPQRSTUVWXYZ0123456789_'')"

text \<open>The line terminators below 256: line feed and carriage return.\<close>

definition isLineTerminator :: "char \<Rightarrow> bool" where
  "isLineTerminator c = (c = CHR 0x0A \<or> c = CHR 0x0D)"

text \<open>
  \<open>String.prototype.toLowerCase\<close>, one code unit at a time: \<open>A-Z\<close> and the Latin-1
  capitals \<open>0xC0-0xDE\<close> (without the multiplication sign \<open>0xD7\<close>) move up by 32.
\<close>

definition toLowerChar :: "char \<Rightarrow> char" where
  "toLowerChar c =
     (let n = (of_char c :: nat)
      in if (65 \<le> n \<and> n \<le> 90) \<or> (192 \<le> n \<and> n \<le> 222 \<and> n \<noteq> 215)
         then char_of (n + 32) else c)"

definition toLowerCase :: "string \<Rightarrow> string" where
  "toLowerCase s = map toLowerChar s"

text \<open>
  The canonical form of a code unit under the \<open>i\<close> flag (no \<open>u\<close> flag): its upper
  case when that is a single code unit.  \<open>a-z\<close> and \<open>0xE0-0xFE\<close> (without the division
  sign \<open>0xF7\<close>) move down by 32; the upper cases of \<open>0xB5\<close> and \<open>0xFF\<close> lie above 255 and
  are the image of no other code unit below 256, and \<open>0xDF\<close> has none of one unit, so the
  three stand for themselves.
\<close>

definition canonicalize :: "char \<Rightarrow> char" where
  "canonicalize c =
     (let n = (of_char c :: nat)
      in if (97 \<le> n \<and> n \<le> 122) \<or> (224 \<le> n \<and> n \<le> 254 \<and> n \<noteq> 247)
         then char_of (n - 32) else c)"

section \<open>Regular expressions\<close>

text \<open>
  The matcher that \<open>compilePath\<close> builds at run time, and the regular-expression literals
  whose backtracking matters, are values of the type \<open>regex\<close>, run by one backtracking
  matcher.  Quantifiers occur in the source only over a single character class, so
  \<open>RStar\<close> and \<open>RPlus\<close> take a class.
\<close>

datatype cclass =
    Lit char        \<comment> \<open>one character, e.g. \<open>\/\<close> or an escaped literal\<close>
  | NotLit char     \<comment> \<open>\<open>[^\/]\<close>\<close>
  | Dot             \<comment> \<open>\<open>.\<close>: anything but a line terminator\<close>
  | WordCh          \<comment> \<open>\<open>\w\<close>\<close>

datatype regex =
    RAtom cclass
  | RStar cclass            \<comment> \<open>greedy \<open>*\<close>\<close>
  | RPlus cclass            \<comment> \<open>greedy \<open>+\<close>\<close>
  | RGroup regex            \<comment> \<open>a capturing group\<close>
  | RSeq regex regex
  | RAlt regex regex        \<comment> \<open>\<open>(?:a|b)\<close>\<close>
  | RBol                    \<comment> \<open>\<open>^\<close>\<close>
  | REol                    \<comment> \<open>\<open>$\<close>\<close>
  | RWordB                  \<comment> \<open>\<open>\b\<close>\<close>
  | REmpty

record RegExp =
  re_source :: regex
  re_ignoreCase :: bool

fun cclass_match :: "bool \<Rightarrow> cclass \<Rightarrow> char \<Rightarrow> bool" where
  "cclass_match ic (Lit c) x = (if ic then canonicalize x = canonicalize c else x = c)"
| "cclass_match ic (NotLit c) x = (\<not> (if ic then canonicalize x = canonicalize c else x = c))"
| "cclass_match ic Dot x = (\<not> isLineTerminator x)"
| "cclass_match ic WordCh x = isWordChar x"

text \<open>The number of capturing groups of an expression.\<close>

fun ngroups :: "regex \<Rightarrow> nat" where
  "ngroups (RGroup r) = Suc (ngroups r)"
| "ngroups (RSeq r1 r2) = ngroups r1 + ngroups r2"
| "ngroups (RAlt r1 r2) = ngroups r1 + ngroups r2"
| "ngroups _ = 0"

text \<open>The length of the longest run of characters of a class from position \<open>i\<close>.\<close>

definition run :: "bool \<Rightarrow> cclass \<Rightarrow> string \<Rightarrow> nat \<Rightarrow> nat" where
  "run ic cc s i = length (takeWhile (cclass_match ic cc) (drop i s))"

text \<open>
  A matcher state is the position in the input and the captures made so far, one entry
  per group opened, \<open>None\<close> for a group that took no part (\<open>undefined\<close>).
  \<open>rmatch ic s r st\<close> lists the states in which \<open>r\<close> can end from \<open>st\<close>, in the order in
  which a backtracking matcher tries them: a greedy quantifier tries the longest run
  first, an alternation its left branch first.  The head of the list is the match that
  JavaScript reports.
\<close>

fun rmatch :: "bool \<Rightarrow> string \<Rightarrow> regex \<Rightarrow> nat \<times> string option list
    \<Rightarrow> (nat \<times> string option list) list" where
  "rmatch ic s (RAtom cc) (i, caps) =
     (if i < length s \<and> cclass_match ic cc (s ! i) then [(Suc i, caps)] else [])"
| "rmatch ic s (RStar cc) (i, caps) =
     map (\<lambda>k. (i + k, caps)) (rev [0..<Suc (run ic cc s i)])"
| "rmatch ic s (RPlus cc) (i, caps) =
     map (\<lambda>k. (i + k, caps)) (rev [1..<Suc (run ic cc s i)])"
| "rmatch ic s (RGroup r) (i, caps) =
     map (\<lambda>(j, caps'). (j, caps'[length caps := Some (slice s i j)]))
       (rmatch ic s r (i, caps @ [None]))"
| "rmatch ic s (RSeq r1 r2) st = concat (map (rmatch ic s r2) (rmatch ic s r1 st))"
| "rmatch ic s (RAlt r1 r2) (i, caps) =
     map (\<lambda>(j, caps'). (j, caps' @ replicate (ngroups r2) None)) (rmatch ic s r1 (i, caps))
     @ rmatch ic s r2 (i, caps @ replicate (ngroups r1) None)"
| "rmatch ic s RBol (i, caps) = (if i = 0 then [(i, caps)] else [])"
| "rmatch ic s REol (i, caps) = (if i = length s then [(i, caps)] else [])"
| "rmatch ic s RWordB (i, caps) =
     (if (0 < i \<and> i \<le> length s \<and> isWordChar (s ! (i - 1))) \<noteq> (i < length s \<and> isWordChar (s ! i))
      then [(i, caps)] else [])"
| "rmatch ic s REmpty st = [st]"

text \<open>
  \<open>RegExp.prototype.exec\<close> without the \<open>g\<close> flag: the leftmost start position from which
  the expression matches, with the end position and the captures of the first match
  there.
\<close>

definition regex_exec :: "RegExp \<Rightarrow> string \<Rightarrow> (nat \<times> nat \<times> string option list) option" where
  "regex_exec re s =
     (case List.find (\<lambda>i. rmatch (re_ignoreCase re) s (re_source re) (i, []) \<noteq> [])
             [0..<Suc (length s)] of
        None \<Rightarrow> None
      | Some i \<Rightarrow>
          (case rmatch (re_ignoreCase re) s (re_source re) (i, []) of
             [] \<Rightarrow> None
           | (j, caps) # _ \<Rightarrow> Some (i, j, caps)))"

text \<open>\<open>re.test(s)\<close>.\<close>

definition regex_test :: "RegExp \<Rightarrow> string \<Rightarrow> bool" where
  "regex_test re s = (regex_exec re s \<noteq> None)"

section \<open>Segment scorer\<close>

text \<open>\<open>const paramRe = /^:\w+$/\<close>.\<close>

definition paramRe :: RegExp where
  "paramRe = \<lparr>re_source = RSeq RBol (RSeq (RAtom (Lit CHR '':'')) (RSeq (RPlus WordCh) REol)),
              re_ignoreCase = False\<rparr>"

definition dynamicSegmentValue :: int where "dynamicSegmentValue = 3"
definition indexRouteValue :: int where "indexRouteValue = 2"
definition emptySegmentValue :: int where "emptySegmentValue = 1"
definition staticSegmentValue :: int where "staticSegmentValue = 10"
definition splatPenalty :: int where "splatPenalty = - 2"

definition isSplat :: "string \<Rightarrow> bool" where
  "isSplat s = (s = ''*'')"

definition computeScore :: "string \<Rightarrow> bool \<Rightarrow> int" where
  "computeScore path index =
     (let segments = split path;
          initialScore = int (length segments);
          initialScore = (if list_ex isSplat segments then initialScore + splatPenalty
                          else initialScore);
          initialScore = (if index then initialScore + indexRouteValue else initialScore)
      in foldl (\<lambda>score segment.
                  score + (if regex_test paramRe segment then dynamicSegmentValue
                           else if segment = [] then emptySegmentValue
                           else staticSegmentValue))
           initialScore
           (filter (\<lambda>s. \<not> isSplat s) segments))"

section \<open>Ambient functions\<close>

text \<open>
  \<open>decodeURIComponent\<close> is a function of the JavaScript runtime whose results leave the
  range of code units below 256, so every function that decodes takes it as the
  parameter \<open>dec\<close>: \<open>dec v = None\<close> when it throws (a malformed escape), \<open>Some\<close> of the
  decoded text otherwise.  The theorems below hold for every such function.
  \<open>decodeLatin1\<close> is the decoder restricted to the model's strings, for running examples:
  it decodes the escapes of the code units below 256 (\<open>%00\<close> to \<open>%7F\<close> and the two-byte
  UTF-8 forms \<open>%C2%80\<close> to \<open>%C3%BF\<close>) and rejects every other escape.
\<close>

definition hexDigit :: "char \<Rightarrow> nat option" where
  "hexDigit c =
     map_of (zip ''0123456789abcdefABCDEF''
               [0, 1, 2, 3, 4, 5, 6, 7, 8, 9, 10, 11, 12, 13, 14, 15, 10, 11, 12, 13, 14, 15]) c"

definition hexByte :: "char \<Rightarrow> char \<Rightarrow> nat option" where
  "hexByte a b =
     (case (hexDigit a, hexDigit b) of (Some h, Some l) \<Rightarrow> Some (16 * h + l) | _ \<Rightarrow> None)"

fun decodeLatin1 :: "string \<Rightarrow> string option" where
  "decodeLatin1 [] = Some []"
| "decodeLatin1 (c # cs) =
     (if c \<noteq> CHR ''%'' then map_option ((#) c) (decodeLatin1 cs)
      else (case cs of
              a # b # rest \<Rightarrow>
                (case hexByte a b of
                   None \<Rightarrow> None
                 | Some n \<Rightarrow>
                     if n < 128 then map_option ((#) (char_of n)) (decodeLatin1 rest)
                     else if n = 194 \<or> n = 195 then
                       (case rest of
                          p # a' # b' # rest' \<Rightarrow>
                            (case hexByte a' b' of
                               None \<Rightarrow> None
                             | Some m \<Rightarrow>
                                 if p = CHR ''%'' \<and> 128 \<le> m \<and> m < 192
                                 then map_option ((#) (char_of ((n - 192) * 64 + (m - 128))))
                                        (decodeLatin1 rest')
                                 else None)
                        | _ \<Rightarrow> None)
                     else None)
            | _ \<Rightarrow> None))"

text \<open>
  \<open>parsePath\<close> of the \<open>history\<close> package (version 5), which the module imports: it cuts
  the hash off at the first \<open>#\<close>, then the search at the first \<open>?\<close>, and leaves out
  every part that is empty.
\<close>

record PartialPath =
  to_pathname :: "string option"
  to_search :: "string option"
  to_hash :: "string option"

definition parsePath :: "string \<Rightarrow> PartialPath" where
  "parsePath path =
     (let hash = dropWhile (\<lambda>c. c \<noteq> CHR ''#'') path;
          path = takeWhile (\<lambda>c. c \<noteq> CHR ''#'') path;
          search = dropWhile (\<lambda>c. c \<noteq> CHR ''?'') path;
          path = takeWhile (\<lambda>c. c \<noteq> CHR ''?'') path
      in \<lparr>to_pathname = (if path = [] then None else Some path),
          to_search = (if search = [] then None else Some search),
          to_hash = (if hash = [] then None else Some hash)\<rparr>)"

section \<open>Data model\<close>

text \<open>
  Modelled from the spec: the declaration \<open>RouteObject\<close> of the module \<open>typings\<close>, which
  is not among the sources.  The spec gives a route an optional \<open>path\<close>, the flags
  \<open>index\<close> and \<open>caseSensitive\<close> (an absent flag reads as false wherever the code
  tests it) and an ordered sequence of child routes.
\<close>

datatype RouteObject =
  RouteObject (route_path: "string option") (route_index: bool) (route_caseSensitive: bool)
    (route_children: "RouteObject list")

datatype error =
    MissingParam string                   \<comment> \<open>\<open>Missing ":key" param\<close>\<close>
  | AbsolutePathNotNested string string   \<comment> \<open>the invariant of \<open>flattenRoutes\<close>\<close>

text \<open>
  A parameter object is a plain object: a map from the names of its own properties to
  their values, a string or \<open>undefined\<close> (\<open>None\<close>).  It inherits the properties of
  \<open>Object.prototype\<close>.
\<close>

type_synonym Params = "string \<rightharpoonup> string option"

text \<open>
  The properties of \<open>Object.prototype\<close>, each with the text that a conversion to a string
  makes of its value: of a built-in function as V8 prints it, and of the prototype
  itself, which is what \<open>__proto__\<close> reads.
\<close>

definition nativeFunction :: "string \<Rightarrow> string" where
  "nativeFunction name = ''function '' @ name @ ''() { [native code] }''"

definition objectPrototype :: "string \<rightharpoonup> string" where
  "objectPrototype =
     map_of
       [(''constructor'', nativeFunction ''Object''),
        (''__defineGetter__'', nativeFunction ''__defineGetter__''),
        (''__defineSetter__'', nativeFunction ''__defineSetter__''),
        (''hasOwnProperty'', nativeFunction ''hasOwnProperty''),
        (''__lookupGetter__'', nativeFunction ''__lookupGetter__''),
        (''__lookupSetter__'', nativeFunction ''__lookupSetter__''),
        (''isPrototypeOf'', nativeFunction ''isPrototypeOf''),
        (''propertyIsEnumerable'', nativeFunction ''propertyIsEnumerable''),
        (''toString'', nativeFunction ''toString''),
        (''valueOf'', nativeFunction ''valueOf''),
        (''__proto__'', ''[object Object]''),
        (''toLocaleString'', nativeFunction ''toLocaleString'')]"

text \<open>
  \<open>params[key]\<close> as the text that \<open>replace\<close> puts in, \<open>None\<close> when it is \<open>undefined\<close>: an
  own property goes before an inherited one, also when it holds \<open>undefined\<close>.
\<close>

definition getParam :: "Params \<Rightarrow> string \<Rightarrow> string option" where
  "getParam params key = (case params key of Some v \<Rightarrow> v | None \<Rightarrow> objectPrototype key)"

text \<open>
  \<open>memo[paramName] = value\<close> for a string \<open>value\<close>.  The name \<open>__proto__\<close> is an accessor
  of \<open>Object.prototype\<close>, whose setter drops a value that is no object, so that nothing
  is stored; every other inherited property is a writable data property, and the
  assignment makes an own property.
\<close>

definition setParam :: "Params \<Rightarrow> string \<Rightarrow> string \<Rightarrow> Params" where
  "setParam memo paramName v = (if paramName = ''__proto__'' then memo else memo(paramName \<mapsto> Some v))"

record RouteMeta =
  meta_relativePath :: string
  meta_caseSensitive :: bool
  meta_childrenIndex :: nat

record RouteBranch =
  branch_path :: string
  branch_score :: int
  branch_routesMeta :: "RouteMeta list"

record PathPattern =
  pattern_path :: string
  pattern_caseSensitive :: "bool option"
  pattern_end :: "bool option"

record PathMatch =
  pm_params :: Params
  pm_pathname :: string
  pm_pathnameBase :: string
  pm_pattern :: PathPattern

text \<open>The field \<open>rm_route\<close> is \<open>None\<close> where the source stores \<open>undefined\<close>.\<close>

record RouteMatch =
  rm_params :: Params
  rm_pathname :: string
  rm_pathnameBase :: string
  rm_route :: "RouteObject option"

record Path =
  path_pathname :: string
  path_search :: string
  path_hash :: string

datatype PatternArg = PatternString string | PatternObject PathPattern

datatype LocationArg = LocationString string | LocationObject PartialPath

datatype To = ToString string | ToObject PartialPath

section \<open>Text helpers of the module\<close>

text \<open>\<open>s.replace(/\/+$/, '')\<close>.\<close>

definition stripTrailingSlashes :: "string \<Rightarrow> string" where
  "stripTrailingSlashes s = rev (dropWhile (\<lambda>c. c = CHR ''/'') (rev s))"

text \<open>\<open>s.replace(/^\/*/, '/')\<close>.\<close>

definition leadingSlash :: "string \<Rightarrow> string" where
  "leadingSlash s = CHR ''/'' # dropWhile (\<lambda>c. c = CHR ''/'') s"

text \<open>\<open>s.replace(/\/\/+/g, '/')\<close>: every run of two or more slashes becomes one.\<close>

fun collapseSlashes :: "string \<Rightarrow> string" where
  "collapseSlashes (a # b # cs) =
     (if a = CHR ''/'' \<and> b = CHR ''/'' then collapseSlashes (b # cs)
      else a # collapseSlashes (b # cs))"
| "collapseSlashes cs = cs"

definition joinPaths :: "string list \<Rightarrow> string" where
  "joinPaths paths = collapseSlashes (join paths)"

definition normalizeSearch :: "string \<Rightarrow> string" where
  "normalizeSearch search =
     (if search = [] \<or> search = ''?'' then []
      else if startsWith search ''?'' then search else CHR ''?'' # search)"

definition normalizeHash :: "string \<Rightarrow> string" where
  "normalizeHash hash =
     (if hash = [] \<or> hash = ''#'' then []
      else if startsWith hash ''#'' then hash else CHR ''#'' # hash)"

text \<open>
  The scan of \<open>s.replace(/:(\w+)/g, ...)\<close>: from left to right, a colon followed by at
  least one word character starts a parameter, whose name is the longest run of word
  characters; the scan goes on behind the name.  Every other character stands for
  itself.
\<close>

datatype token = TChar char | TParam string

function paramTokens :: "string \<Rightarrow> token list" where
  "paramTokens [] = []"
| "paramTokens (c # cs) =
     (if c = CHR '':'' \<and> takeWhile isWordChar cs \<noteq> []
      then TParam (takeWhile isWordChar cs) # paramTokens (dropWhile isWordChar cs)
      else TChar c # paramTokens cs)"
  by pat_completeness auto
termination
  by (relation "measure length") (auto simp: length_dropWhile_le le_imp_less_Suc)

section \<open>generatePath\<close>

fun interpolate :: "Params \<Rightarrow> token list \<Rightarrow> error + string" where
  "interpolate params [] = Inr []"
| "interpolate params (TChar c # ts) =
     (case interpolate params ts of Inl e \<Rightarrow> Inl e | Inr s \<Rightarrow> Inr (c # s))"
| "interpolate params (TParam key # ts) =
     (case getParam params key of
        None \<Rightarrow> Inl (MissingParam key)
      | Some v \<Rightarrow> (case interpolate params ts of Inl e \<Rightarrow> Inl e | Inr s \<Rightarrow> Inr (v @ s)))"

text \<open>
  The second replacement, by \<open>/\/*\*$/\<close>, applies when the text ends in \<open>*\<close>: it takes
  that star and the slashes before it.  No property of \<open>Object.prototype\<close> has the name
  \<open>*\<close>, so \<open>params['*']\<close> is an own property or \<open>undefined\<close>.
\<close>

definition generatePath :: "string \<Rightarrow> Params \<Rightarrow> error + string" where
  "generatePath path params =
     (case interpolate params (paramTokens path) of
        Inl e \<Rightarrow> Inl e
      | Inr s \<Rightarrow>
          Inr (if endsWith s ''*''
               then stripTrailingSlashes (butlast s) @
                      (case getParam params ''*'' of None \<Rightarrow> [] | Some v \<Rightarrow> leadingSlash v)
               else s))"

section \<open>Pattern compiler\<close>

text \<open>\<open>path.replace(/\/*\*?$/, '')\<close>: a final star, then the slashes at the end, go.\<close>

definition stripTrailingSplat :: "string \<Rightarrow> string" where
  "stripTrailingSplat path =
     stripTrailingSlashes (if endsWith path ''*'' then butlast path else path)"

text \<open>
  The source escapes the characters \<open>\.*+^$?{}|()[]\<close> and then replaces each \<open>:name\<close> by
  \<open>([^\/]+)\<close>.  The escape puts a backslash before every character that has a meaning in
  a regular expression, so the expression that \<open>new RegExp\<close> reads matches each character
  of the text literally; and a backslash is no word character, so the names the scan
  finds in the escaped text are those of the text itself.  The model therefore turns
  the tokens of the text straight into matcher items.
\<close>

fun tokenRegex :: "token \<Rightarrow> regex" where
  "tokenRegex (TChar c) = RAtom (Lit c)"
| "tokenRegex (TParam name) = RGroup (RPlus (NotLit CHR ''/''))"

fun tokenNames :: "token list \<Rightarrow> string list" where
  "tokenNames [] = []"
| "tokenNames (TChar c # ts) = tokenNames ts"
| "tokenNames (TParam name # ts) = name # tokenNames ts"

fun seqs :: "regex list \<Rightarrow> regex" where
  "seqs [] = REmpty"
| "seqs (r # rs) = RSeq r (seqs rs)"

text \<open>The four endings of \<open>regexpSource\<close>.\<close>

definition splatAll :: "regex list" where         \<comment> \<open>\<open>(.*)$\<close>\<close>
  "splatAll = [RGroup (RStar Dot), REol]"

definition splatRest :: "regex list" where        \<comment> \<open>\<open>(?:\/(.+)|\/*)$\<close>\<close>
  "splatRest = [RAlt (RSeq (RAtom (Lit CHR ''/'')) (RGroup (RPlus Dot))) (RStar (Lit CHR ''/'')), REol]"

definition toTheEnd :: "regex list" where         \<comment> \<open>\<open>\/*$\<close>\<close>
  "toTheEnd = [RStar (Lit CHR ''/''), REol]"

definition wordBoundary :: "regex list" where     \<comment> \<open>\<open>(?:\b|$)\<close>\<close>
  "wordBoundary = [RAlt RWordB REol]"

definition compilePath :: "string \<Rightarrow> bool \<Rightarrow> bool \<Rightarrow> RegExp \<times> string list" where
  "compilePath path caseSensitive end =
     (let tokens = paramTokens (leadingSlash (stripTrailingSplat path));
          paramNames = tokenNames tokens;
          regexpSource = RBol # map tokenRegex tokens
      in if endsWith path ''*''
         then (\<lparr>re_source = seqs (regexpSource @
                   (if path = ''*'' \<or> path = ''/*'' then splatAll else splatRest)),
                 re_ignoreCase = \<not> caseSensitive\<rparr>,
               paramNames @ [''*''])
         else (\<lparr>re_source = seqs (regexpSource @ (if end then toTheEnd else wordBoundary)),
                 re_ignoreCase = \<not> caseSensitive\<rparr>,
               paramNames))"

text \<open>
  The call of \<open>warning\<close> at the head of \<open>compilePath\<close> writes to the console and has no
  part in the result; this is whether it writes.
\<close>

definition compilePath_warns :: "string \<Rightarrow> bool" where
  "compilePath_warns path = (\<not> (path = ''*'' \<or> \<not> endsWith path ''*'' \<or> endsWith path ''/*''))"

section \<open>matchPath\<close>

definition safelyDecodeURIComponent :: "(string \<Rightarrow> string option) \<Rightarrow> string \<Rightarrow> string \<Rightarrow> string" where
  "safelyDecodeURIComponent dec v paramName = (case dec v of Some d \<Rightarrow> d | None \<Rightarrow> v)"

text \<open>\<open>captureGroups[index] || ''\<close>.\<close>

definition captureOrEmpty :: "string option list \<Rightarrow> nat \<Rightarrow> string" where
  "captureOrEmpty captureGroups index =
     (if index < length captureGroups
      then (case captureGroups ! index of None \<Rightarrow> [] | Some v \<Rightarrow> v) else [])"

text \<open>\<open>s.replace(/(.)\/+$/, '$1')\<close>, by the matcher.\<close>

definition trailingSlashesRe :: RegExp where
  "trailingSlashesRe =
     \<lparr>re_source = RSeq (RGroup (RAtom Dot)) (RSeq (RPlus (Lit CHR ''/'')) REol),
      re_ignoreCase = False\<rparr>"

definition dropTrailingSlashes :: "string \<Rightarrow> string" where
  "dropTrailingSlashes s =
     (case regex_exec trailingSlashesRe s of
        None \<Rightarrow> s
      | Some (i, j, caps) \<Rightarrow> take i s @ captureOrEmpty caps 0 @ drop j s)"

text \<open>One step of the \<open>reduce\<close> over \<open>paramNames\<close>; the state is \<open>memo\<close> and \<open>pathnameBase\<close>.\<close>

definition paramStep :: "(string \<Rightarrow> string option) \<Rightarrow> string \<Rightarrow> string option list
    \<Rightarrow> Params \<times> string \<Rightarrow> string \<times> nat \<Rightarrow> Params \<times> string" where
  "paramStep dec matchedPathname captureGroups st pn =
     (case (st, pn) of
        ((memo, pathnameBase), (paramName, index)) \<Rightarrow>
          (setParam memo paramName
             (safelyDecodeURIComponent dec (captureOrEmpty captureGroups index) paramName),
           (if paramName = ''*''
            then (let splatValue = captureOrEmpty captureGroups index
                  in dropTrailingSlashes
                       (take (length matchedPathname - length splatValue) matchedPathname))
            else pathnameBase)))"

definition matchPath :: "(string \<Rightarrow> string option) \<Rightarrow> PatternArg \<Rightarrow> string \<Rightarrow> PathMatch option" where
  "matchPath dec patternArg pathname =
     (let pattern =
            (case patternArg of
               PatternString p \<Rightarrow>
                 \<lparr>pattern_path = p, pattern_caseSensitive = Some False, pattern_end = Some True\<rparr>
             | PatternObject po \<Rightarrow> po);
          compiled = compilePath (pattern_path pattern)
                       (case pattern_caseSensitive pattern of None \<Rightarrow> False | Some b \<Rightarrow> b)
                       (case pattern_end pattern of None \<Rightarrow> True | Some b \<Rightarrow> b);
          matcher = fst compiled;
          paramNames = snd compiled
      in case regex_exec matcher pathname of
           None \<Rightarrow> None
         | Some (i, j, captureGroups) \<Rightarrow>
             (let matchedPathname = slice pathname i j;
                  r = foldl (paramStep dec matchedPathname captureGroups)
                        (Map.empty, dropTrailingSlashes matchedPathname)
                        (zip paramNames [0..<length paramNames])
              in Some \<lparr>pm_params = fst r, pm_pathname = matchedPathname,
                       pm_pathnameBase = snd r, pm_pattern = pattern\<rparr>))"

section \<open>Route flattener\<close>

text \<open>
  The callback of \<open>routes.forEach\<close>, route by route with its index; a failed
  \<open>invariant\<close> ends the whole call.
\<close>

fun flattenLoop :: "RouteObject list \<Rightarrow> nat \<Rightarrow> RouteBranch list \<Rightarrow> RouteMeta list \<Rightarrow> string
    \<Rightarrow> error + RouteBranch list" where
  "flattenLoop [] index branches parentsMeta parentPath = Inr branches"
| "flattenLoop (route # rest) index branches parentsMeta parentPath =
     (let relativePath = (case route_path route of None \<Rightarrow> [] | Some p \<Rightarrow> p)
      in if startsWith relativePath ''/'' \<and> \<not> startsWith relativePath parentPath
         then Inl (AbsolutePathNotNested relativePath parentPath)
         else
           (let relativePath = (if startsWith relativePath ''/''
                                then drop (length parentPath) relativePath else relativePath);
                meta = \<lparr>meta_relativePath = relativePath,
                        meta_caseSensitive = route_caseSensitive route,
                        meta_childrenIndex = index\<rparr>;
                path = joinPaths [parentPath, relativePath];
                routesMeta = parentsMeta @ [meta]
            in if route_path route = None \<and> \<not> route_index route
               then flattenLoop rest (Suc index) branches parentsMeta parentPath
               else flattenLoop rest (Suc index)
                      (branches @ [\<lparr>branch_path = path,
                                     branch_score = computeScore path (route_index route),
                                     branch_routesMeta = routesMeta\<rparr>])
                      parentsMeta parentPath))"

definition flattenRoutes :: "RouteObject list \<Rightarrow> RouteBranch list \<Rightarrow> RouteMeta list \<Rightarrow> string
    \<Rightarrow> error + RouteBranch list" where
  "flattenRoutes routes branches parentsMeta parentPath =
     flattenLoop routes 0 branches parentsMeta parentPath"

section \<open>Branch ranker\<close>

text \<open>
  \<open>a[a.length - 1] - b[b.length - 1]\<close> is \<open>NaN\<close> when both arrays are empty, which
  \<open>sort\<close> reads as 0.
\<close>

definition compareIndexes :: "nat list \<Rightarrow> nat list \<Rightarrow> int" where
  "compareIndexes a b =
     (let siblings = (length a = length b \<and> list_all (\<lambda>i. a ! i = b ! i) [0..<length a - 1])
      in if siblings then (if a = [] then 0 else int (last a) - int (last b)) else 0)"

definition compareBranches :: "RouteBranch \<Rightarrow> RouteBranch \<Rightarrow> int" where
  "compareBranches a b =
     (if branch_score a \<noteq> branch_score b then branch_score b - branch_score a
      else compareIndexes (map meta_childrenIndex (branch_routesMeta a))
             (map meta_childrenIndex (branch_routesMeta b)))"

text \<open>
  \<open>Array.prototype.sort\<close> with a comparison function is a stable sort.  For a consistent
  comparison function every stable sort returns the same array, the one this insertion
  sort computes; for an inconsistent one the language leaves the order to the
  implementation, and the model is one admissible choice.
\<close>

fun insertBy :: "('a \<Rightarrow> 'a \<Rightarrow> int) \<Rightarrow> 'a \<Rightarrow> 'a list \<Rightarrow> 'a list" where
  "insertBy cmp x [] = [x]"
| "insertBy cmp x (y # ys) = (if cmp x y \<le> 0 then x # y # ys else y # insertBy cmp x ys)"

definition sortBy :: "('a \<Rightarrow> 'a \<Rightarrow> int) \<Rightarrow> 'a list \<Rightarrow> 'a list" where
  "sortBy cmp xs = foldr (insertBy cmp) xs []"

definition rankRouteBranches :: "RouteBranch list \<Rightarrow> RouteBranch list" where
  "rankRouteBranches branches = sortBy compareBranches branches"

section \<open>Branch matcher\<close>

text \<open>\<open>routes[i]\<close>, \<open>undefined\<close> beyond the end.\<close>

definition routeAt :: "RouteObject list \<Rightarrow> nat \<Rightarrow> RouteObject option" where
  "routeAt routes i = (if i < length routes then Some (routes ! i) else None)"

text \<open>
  The loop of \<open>matchRouteBranch\<close> over \<open>routesMeta\<close>, with its variables \<open>routes\<close>,
  \<open>matchedParams\<close>, \<open>matchedPathname\<close> and \<open>matches\<close> as arguments.  Every entry of
  \<open>matches\<close> holds the one object \<open>matchedParams\<close>, so \<open>matchRouteBranch\<close> gives each
  entry the parameters that object holds at the end.
\<close>

fun matchRouteBranchLoop :: "(string \<Rightarrow> string option) \<Rightarrow> string \<Rightarrow> RouteMeta list
    \<Rightarrow> RouteObject list \<Rightarrow> Params \<Rightarrow> string \<Rightarrow> RouteMatch list
    \<Rightarrow> (RouteMatch list \<times> Params) option" where
  "matchRouteBranchLoop dec pathname [] routes matchedParams matchedPathname matches =
     Some (matches, matchedParams)"
| "matchRouteBranchLoop dec pathname (meta # rest) routes matchedParams matchedPathname matches =
     (let end = (rest = []);
          remainingPathname =
            (if matchedPathname = ''/'' then pathname
             else (let r = drop (length matchedPathname) pathname in if r = [] then ''/'' else r))
      in case matchPath dec
                (PatternObject \<lparr>pattern_path = meta_relativePath meta,
                                 pattern_caseSensitive = Some (meta_caseSensitive meta),
                                 pattern_end = Some end\<rparr>)
                remainingPathname of
           None \<Rightarrow> None
         | Some m \<Rightarrow>
             (let matchedParams = matchedParams ++ pm_params m;
                  route = routeAt routes (meta_childrenIndex meta);
                  matches = matches @
                    [\<lparr>rm_params = matchedParams,
                      rm_pathname = joinPaths [matchedPathname, pm_pathname m],
                      rm_pathnameBase = joinPaths [matchedPathname, pm_pathnameBase m],
                      rm_route = route\<rparr>];
                  matchedPathname =
                    (if pm_pathnameBase m \<noteq> ''/''
                     then joinPaths [matchedPathname, pm_pathnameBase m] else matchedPathname)
              in matchRouteBranchLoop dec pathname rest [] matchedParams matchedPathname matches))"

definition matchRouteBranch :: "(string \<Rightarrow> string option) \<Rightarrow> RouteBranch \<Rightarrow> RouteObject list
    \<Rightarrow> string \<Rightarrow> RouteMatch list option" where
  "matchRouteBranch dec branch routesArg pathname =
     (case matchRouteBranchLoop dec pathname (branch_routesMeta branch) routesArg Map.empty ''/'' [] of
        None \<Rightarrow> None
      | Some (matches, matchedParams) \<Rightarrow>
          Some (map (\<lambda>m. m\<lparr>rm_params := matchedParams\<rparr>) matches))"

section \<open>matchRoutes\<close>

text \<open>\<open>s.charAt(i)\<close>.\<close>

definition charAt :: "string \<Rightarrow> nat \<Rightarrow> string" where
  "charAt s i = (if i < length s then [s ! i] else [])"

definition stripBasename :: "string \<Rightarrow> string \<Rightarrow> string option" where
  "stripBasename pathname basename =
     (if basename = ''/'' then Some pathname
      else if \<not> startsWith (toLowerCase pathname) (toLowerCase basename) then None
      else (let nextChar = charAt pathname (length basename)
            in if nextChar \<noteq> [] \<and> nextChar \<noteq> ''/'' then None
               else (let r = drop (length basename) pathname
                     in Some (if r = [] then ''/'' else r))))"

text \<open>The loop \<open>for (i = 0; matches == null && i < branches.length; i += 1)\<close>.\<close>

fun firstMatch :: "(string \<Rightarrow> string option) \<Rightarrow> RouteBranch list \<Rightarrow> RouteObject list \<Rightarrow> string
    \<Rightarrow> RouteMatch list option" where
  "firstMatch dec [] routes pathname = None"
| "firstMatch dec (branch # branches) routes pathname =
     (case matchRouteBranch dec branch routes pathname of
        Some matches \<Rightarrow> Some matches
      | None \<Rightarrow> firstMatch dec branches routes pathname)"

definition matchRoutes :: "(string \<Rightarrow> string option) \<Rightarrow> RouteObject list \<Rightarrow> LocationArg \<Rightarrow> string
    \<Rightarrow> error + RouteMatch list option" where
  "matchRoutes dec routes locationArg basename =
     (let location = (case locationArg of LocationString s \<Rightarrow> parsePath s
                                        | LocationObject l \<Rightarrow> l)
      in case stripBasename
                (case to_pathname location of
                   None \<Rightarrow> ''/'' | Some p \<Rightarrow> (if p = [] then ''/'' else p))
                basename of
           None \<Rightarrow> Inr None
         | Some pathname \<Rightarrow>
             (case flattenRoutes routes [] [] [] of
                Inl e \<Rightarrow> Inl e
              | Inr branches \<Rightarrow> Inr (firstMatch dec (rankRouteBranches branches) routes pathname)))"

section \<open>Path resolver\<close>

text \<open>The callback of \<open>relativeSegments.forEach\<close> in \<open>resolvePathname\<close>.\<close>

definition resolveSegment :: "string list \<Rightarrow> string \<Rightarrow> string list" where
  "resolveSegment segments segment =
     (if segment = ''..'' then (if length segments > 1 then butlast segments else segments)
      else if segment \<noteq> ''.'' then segments @ [segment]
      else segments)"

definition resolvePathname :: "string \<Rightarrow> string \<Rightarrow> string" where
  "resolvePathname relativePath fromPathname =
     (let segments = split (stripTrailingSlashes fromPathname);
          relativeSegments = split relativePath;
          segments = foldl resolveSegment segments relativeSegments
      in if length segments > 1 then join segments else ''/'')"

text \<open>\<open>typeof to === 'string' ? parsePath(to) : to\<close>.\<close>

definition toObject :: "To \<Rightarrow> PartialPath" where
  "toObject to = (case to of ToString s \<Rightarrow> parsePath s | ToObject p \<Rightarrow> p)"

definition resolvePath :: "To \<Rightarrow> string \<Rightarrow> Path" where
  "resolvePath to fromPathname =
     (let parsed = toObject to;
          search = (case to_search parsed of None \<Rightarrow> [] | Some x \<Rightarrow> x);
          hash = (case to_hash parsed of None \<Rightarrow> [] | Some x \<Rightarrow> x);
          pathname =
            (case to_pathname parsed of
               None \<Rightarrow> fromPathname
             | Some toPathname \<Rightarrow>
                 if toPathname = [] then fromPathname
                 else if startsWith toPathname ''/'' then toPathname
                 else resolvePathname toPathname fromPathname)
      in \<lparr>path_pathname = pathname, path_search = normalizeSearch search,
          path_hash = normalizeHash hash\<rparr>)"

text \<open>
  The loop \<open>while (toSegments[0] === '..')\<close> of \<open>resolveTo\<close>: it drops the leading
  \<open>..\<close> segments and lowers \<open>routePathnameIndex\<close> by one for each.
\<close>

fun stepUp :: "string list \<Rightarrow> int \<Rightarrow> string list \<times> int" where
  "stepUp [] routePathnameIndex = ([], routePathnameIndex)"
| "stepUp (seg # toSegments) routePathnameIndex =
     (if seg = ''..'' then stepUp toSegments (routePathnameIndex - 1)
      else (seg # toSegments, routePathnameIndex))"

definition resolveTo :: "To \<Rightarrow> string list \<Rightarrow> string \<Rightarrow> Path" where
  "resolveTo toArg routePathnames locationPathname =
     (let to = toObject toArg;
          toPathname = (if toArg = ToString [] \<or> to_pathname to = Some [] then Some ''/''
                        else to_pathname to);
          (to, from) =
            (case toPathname of
               None \<Rightarrow> (to, locationPathname)
             | Some tp \<Rightarrow>
                 (let routePathnameIndex = int (length routePathnames) - 1;
                      (to, routePathnameIndex) =
                        (if startsWith tp ''..''
                         then (case stepUp (split tp) routePathnameIndex of
                                 (toSegments, k) \<Rightarrow> (to\<lparr>to_pathname := Some (join toSegments)\<rparr>, k))
                         else (to, routePathnameIndex))
                  in (to, if routePathnameIndex \<ge> 0 then routePathnames ! nat routePathnameIndex
                          else ''/'')));
          path = resolvePath (ToObject to) from
      in (case toPathname of
            None \<Rightarrow> path
          | Some tp \<Rightarrow>
              if tp \<noteq> [] \<and> tp \<noteq> ''/'' \<and> endsWith tp ''/'' \<and> \<not> endsWith (path_pathname path) ''/''
              then path\<lparr>path_pathname := path_pathname path @ ''/''\<rparr>
              else path))"

section \<open>Notions of the specification\<close>

text \<open>
  A dynamic segment in the words of the specification: a colon followed by one or more
  word characters.
\<close>

definition isParamSegment :: "string \<Rightarrow> bool" where
  "isParamSegment seg =
     (case seg of [] \<Rightarrow> False | c # w \<Rightarrow> c = CHR '':'' \<and> w \<noteq> [] \<and> list_all isWordChar w)"

text \<open>What a segment other than \<open>*\<close> adds to the score, in the words of the specification.\<close>

definition segmentValue :: "string \<Rightarrow> int" where
  "segmentValue seg = (if isParamSegment seg then 3 else if seg = [] then 1 else 10)"

text \<open>
  The notions of C3.  Two branches are siblings when their chains have equal length and
  agree on every \<open>childrenIndex\<close> but the last; two branches tie when the comparison of
  \<open>rankRouteBranches\<close> makes no difference between them: equal score and, if siblings,
  equal last index.
\<close>

definition indexChain :: "RouteBranch \<Rightarrow> nat list" where
  "indexChain b = map meta_childrenIndex (branch_routesMeta b)"

definition siblings :: "RouteBranch \<Rightarrow> RouteBranch \<Rightarrow> bool" where
  "siblings a b =
     (length (indexChain a) = length (indexChain b) \<and> butlast (indexChain a) = butlast (indexChain b))"

definition lastIndex :: "RouteBranch \<Rightarrow> nat" where
  "lastIndex b = (if indexChain b = [] then 0 else last (indexChain b))"

definition ties :: "RouteBranch \<Rightarrow> RouteBranch \<Rightarrow> bool" where
  "ties a b = (branch_score a = branch_score b \<and> (siblings a b \<longrightarrow> lastIndex a = lastIndex b))"

text \<open>
  The comparison is consistent on a list when tying is transitive among its branches.
  Every list whose chains all have length one is of this kind.
\<close>

definition consistentTies :: "RouteBranch list \<Rightarrow> bool" where
  "consistentTies bs =
     (\<forall>a\<in>set bs. \<forall>b\<in>set bs. \<forall>c\<in>set bs. ties a b \<and> ties b c \<longrightarrow> ties a c)"

text \<open>
  The order C3 describes: a rearrangement of the input, by descending score, equal-score
  siblings by ascending last index, and every two equal-score branches that are no
  siblings in the order they had in the input.
\<close>

definition rankedAsSpecified :: "RouteBranch list \<Rightarrow> RouteBranch list \<Rightarrow> bool" where
  "rankedAsSpecified branches ranked =
     (mset ranked = mset branches
      \<and> sorted_wrt (\<lambda>a b. branch_score a \<ge> branch_score b) ranked
      \<and> sorted_wrt (\<lambda>a b. branch_score a = branch_score b \<and> siblings a b
                              \<longrightarrow> lastIndex a \<le> lastIndex b) ranked
      \<and> (\<forall>x\<in>set branches. \<forall>y\<in>set branches.
             branch_score x = branch_score y \<and> \<not> siblings x y
               \<longrightarrow> filter (\<lambda>z. z = x \<or> z = y) ranked = filter (\<lambda>z. z = x \<or> z = y) branches))"

text \<open>A branch with a given score and chain of indices, for examples.\<close>

definition branchAt :: "int \<Rightarrow> nat list \<Rightarrow> RouteBranch" where
  "branchAt sc chain =
     \<lparr>branch_path = [], branch_score = sc,
      branch_routesMeta =
        map (\<lambda>i. \<lparr>meta_relativePath = [], meta_caseSensitive = False, meta_childrenIndex = i\<rparr>) chain\<rparr>"

text \<open>
  The notions of C4 and C5.  A route is matchable when it has a path or is an index
  route.  \<open>topBranch\<close> is the branch of the route at position \<open>i\<close> of a list flattened with
  no parents: a chain of one element; \<open>withoutChildren\<close> forgets the children of a route.
\<close>

definition matchable :: "RouteObject \<Rightarrow> bool" where
  "matchable route = (route_path route \<noteq> None \<or> route_index route)"

definition topBranch :: "nat \<times> RouteObject \<Rightarrow> RouteBranch" where
  "topBranch ir =
     (case ir of
        (i, route) \<Rightarrow>
          (let relativePath = (case route_path route of None \<Rightarrow> [] | Some p \<Rightarrow> p);
               path = joinPaths [[], relativePath]
           in \<lparr>branch_path = path,
               branch_score = computeScore path (route_index route),
               branch_routesMeta =
                 [\<lparr>meta_relativePath = relativePath,
                   meta_caseSensitive = route_caseSensitive route,
                   meta_childrenIndex = i\<rparr>]\<rparr>))"

definition withoutChildren :: "RouteObject \<Rightarrow> RouteObject" where
  "withoutChildren route =
     RouteObject (route_path route) (route_index route) (route_caseSensitive route) []"

text \<open>
  The routes that \<open>matchRouteBranch\<close> records along a chain: that of the first element
  comes from the list it was given, and \<open>undefined\<close> stands for every later one.
\<close>

fun routesSeen :: "RouteObject list \<Rightarrow> RouteMeta list \<Rightarrow> RouteObject option list" where
  "routesSeen routes [] = []"
| "routesSeen routes (meta # rest) = routeAt routes (meta_childrenIndex meta) # map (\<lambda>_. None) rest"

text \<open>
  The notions of C7: the pathname that \<open>matchRoutes\<close> reads from its location argument, a
  location that is that pathname alone, and the pathname behind a basename.
\<close>

definition locationPathname :: "LocationArg \<Rightarrow> string" where
  "locationPathname locationArg =
     (case to_pathname (case locationArg of LocationString s \<Rightarrow> parsePath s
                                          | LocationObject l \<Rightarrow> l) of
        None \<Rightarrow> ''/'' | Some p \<Rightarrow> (if p = [] then ''/'' else p))"

definition pathnameOnly :: "string \<Rightarrow> LocationArg" where
  "pathnameOnly p = LocationObject \<lparr>to_pathname = Some p, to_search = None, to_hash = None\<rparr>"

text \<open>Routes and a branch for examples.\<close>

definition childRoute :: RouteObject where
  "childRoute = RouteObject (Some ''b'') False False []"

definition parentRoute :: RouteObject where
  "parentRoute = RouteObject (Some ''/a'') False False [childRoute]"

definition nestedBranch :: RouteBranch where
  "nestedBranch =
     \<lparr>branch_path = ''/a/b'', branch_score = computeScore ''/a/b'' False,
      branch_routesMeta =
        [\<lparr>meta_relativePath = ''/a'', meta_caseSensitive = False, meta_childrenIndex = 0\<rparr>,
         \<lparr>meta_relativePath = ''b'', meta_caseSensitive = False, meta_childrenIndex = 0\<rparr>]\<rparr>"

definition stripped :: "string \<Rightarrow> string \<Rightarrow> string" where
  "stripped pathname basename =
     (let r = drop (length basename) pathname in if r = [] then ''/'' else r)"

definition groupRoute :: RouteObject where
  "groupRoute = RouteObject None False False [RouteObject (Some ''a'') False False []]"

definition usersId :: RouteObject where "usersId = RouteObject (Some ''/users/:id'') False False []"
definition usersNew :: RouteObject where "usersNew = RouteObject (Some ''/users/new'') False False []"
definition homeRoute :: RouteObject where "homeRoute = RouteObject (Some ''/home'') False False []"

text \<open>
  The notions of C9: the entry of \<open>routePathnames\<close> that lies \<open>k\<close> levels above the last
  one, \<open>/\<close> when there are not that many; and the trailing slash that \<open>resolveTo\<close> keeps.
\<close>

definition ancestorPathname :: "string list \<Rightarrow> nat \<Rightarrow> string" where
  "ancestorPathname routePathnames k =
     (if k < length routePathnames then routePathnames ! (length routePathnames - 1 - k) else ''/'')"

definition keepTrailingSlash :: "string \<Rightarrow> Path \<Rightarrow> Path" where
  "keepTrailingSlash toPathname path =
     (if toPathname \<noteq> [] \<and> toPathname \<noteq> ''/'' \<and> endsWith toPathname ''/''
         \<and> \<not> endsWith (path_pathname path) ''/''
      then path\<lparr>path_pathname := path_pathname path @ ''/''\<rparr>
      else path)"

text \<open>The pattern object that \<open>matchPath\<close> makes of its first argument.\<close>

definition patternOf :: "PatternArg \<Rightarrow> PathPattern" where
  "patternOf patternArg =
     (case patternArg of
        PatternString p \<Rightarrow>
          \<lparr>pattern_path = p, pattern_caseSensitive = Some False, pattern_end = Some True\<rparr>
      | PatternObject po \<Rightarrow> po)"

text \<open>
  The notions of C6.  A value is URL-safe when it is not empty and made of unreserved
  characters (letters, digits and \<open>-_.~\<close>); a literal segment is not empty and holds no
  slash, colon or star.  \<open>segmentPattern\<close> is the pattern \<open>/s1/.../sn\<close> of the segments
  \<open>s1, ..., sn\<close>, \<open>segmentNames\<close> the names of its \<open>:name\<close> segments, \<open>segmentPath\<close> the
  pattern with each \<open>:name\<close> replaced by its value, and the parameters cover the pattern
  when they hold, as an own property, a URL-safe value for each of its names.
\<close>

definition isUnreserved :: "char \<Rightarrow> bool" where
  "isUnreserved c = (isWordChar c \<or> c \<in> set ''-.~'')"

definition urlSafe :: "string \<Rightarrow> bool" where
  "urlSafe v = (v \<noteq> [] \<and> list_all isUnreserved v)"

definition isLiteralSegment :: "string \<Rightarrow> bool" where
  "isLiteralSegment seg = (seg \<noteq> [] \<and> list_all (\<lambda>c. c \<notin> set ''/:*'') seg)"

definition segmentPattern :: "string list \<Rightarrow> string" where
  "segmentPattern segs = concat (map ((#) CHR ''/'') segs)"

definition segmentNames :: "string list \<Rightarrow> string list" where
  "segmentNames segs = map tl (filter isParamSegment segs)"

definition ownValue :: "Params \<Rightarrow> string \<Rightarrow> string option" where
  "ownValue params name = (case params name of None \<Rightarrow> None | Some v \<Rightarrow> v)"

definition covers :: "Params \<Rightarrow> string list \<Rightarrow> bool" where
  "covers params segs =
     list_all (\<lambda>name. case ownValue params name of None \<Rightarrow> False | Some v \<Rightarrow> urlSafe v)
       (segmentNames segs)"

definition segmentText :: "Params \<Rightarrow> string \<Rightarrow> string" where
  "segmentText params seg =
     (if isParamSegment seg then (case ownValue params (tl seg) of None \<Rightarrow> [] | Some v \<Rightarrow> v)
      else seg)"

definition segmentPath :: "Params \<Rightarrow> string list \<Rightarrow> string" where
  "segmentPath params segs = concat (map (\<lambda>seg. CHR ''/'' # segmentText params seg) segs)"

text \<open>The tokens of one segment of such a pattern, with the slash before it.\<close>

definition segTokens :: "string \<Rightarrow> token list" where
  "segTokens seg = TChar CHR ''/'' # (if isParamSegment seg then [TParam (tl seg)] else map TChar seg)"

section \<open>Properties of the text helpers and of the matcher\<close>

lemma split_not_Nil [simp]: "split s \<noteq> []"
  by (induction s) (auto split: list.splits)

lemma split_no_slash: "CHR ''/'' \<notin> set t \<Longrightarrow> split t = [t]"
  by (induction t) auto

lemma split_append_segment:
  "CHR ''/'' \<notin> set t \<Longrightarrow> split (s @ CHR ''/'' # t) = split s @ [t]"
  by (induction s) (auto simp: split_no_slash split: list.splits)

lemma length_split: "length (split s) = Suc (count_list s CHR ''/'')"
  by (induction s) (auto split: list.splits)

text \<open>An expression that starts with \<open>^\<close> matches from position 0 or not at all.\<close>

lemma find_anchored:
  assumes "\<And>i. 0 < i \<Longrightarrow> \<not> P i"
  shows "List.find P [0..<Suc n] = (if P 0 then Some 0 else None)"
proof -
  have "[0..<Suc n] = 0 # [Suc 0..<Suc n]" by (simp add: upt_conv_Cons)
  moreover have "List.find P [Suc 0..<Suc n] = None"
    using assms by (auto simp: find_None_iff)
  ultimately show ?thesis by simp
qed

lemma run_le: "run ic cc s i \<le> length s - i"
  using length_takeWhile_le[of "cclass_match ic cc" "drop i s"] by (simp add: run_def)

lemma length_takeWhile_full: "(length (takeWhile P xs) = length xs) = (\<forall>x\<in>set xs. P x)"
  by (induction xs) auto

lemma run_full_iff:
  "(run ic cc s i = length s - i) = (\<forall>x \<in> set (drop i s). cclass_match ic cc x)"
  using length_takeWhile_full[of "cclass_match ic cc" "drop i s"] by (simp add: run_def)

text \<open>Of the end positions a quantifier offers, \<open>$\<close> keeps the end of the input.\<close>

lemma concat_eol:
  "distinct ks \<Longrightarrow>
   concat (map (\<lambda>k. rmatch ic s REol (i + k, caps)) ks)
     = (if \<exists>k\<in>set ks. i + k = length s then [(length s, caps)] else [])"
proof (induction ks)
  case Nil
  then show ?case by simp
next
  case (Cons a ks)
  have "a \<notin> set ks" using Cons.prems by simp
  then have "i + a = length s \<Longrightarrow> k \<in> set ks \<Longrightarrow> i + k \<noteq> length s" for k
    by (cases "k = a") simp_all
  then have "i + a = length s \<Longrightarrow> \<not> (\<exists>k\<in>set ks. i + k = length s)"
    by blast
  then show ?case using Cons by auto
qed

lemma rmatch_plus_eol:
  "rmatch ic s (RSeq (RPlus cc) REol) (i, caps)
     = (if i < length s \<and> run ic cc s i = length s - i then [(length s, caps)] else [])"
proof -
  have "rmatch ic s (RSeq (RPlus cc) REol) (i, caps)
          = concat (map (\<lambda>k. rmatch ic s REol (i + k, caps)) (rev [1..<Suc (run ic cc s i)]))"
    by (simp add: comp_def del: upt_Suc)
  also have "\<dots> = (if \<exists>k\<in>set (rev [1..<Suc (run ic cc s i)]). i + k = length s
                    then [(length s, caps)] else [])"
    by (rule concat_eol) simp
  also have "\<dots> = (if i < length s \<and> run ic cc s i = length s - i
                    then [(length s, caps)] else [])"
    using run_le[of ic cc s i] by auto
  finally show ?thesis .
qed

lemma rmatch_star_eol:
  "rmatch ic s (RSeq (RStar cc) REol) (i, caps)
     = (if i \<le> length s \<and> run ic cc s i = length s - i then [(length s, caps)] else [])"
proof -
  have "rmatch ic s (RSeq (RStar cc) REol) (i, caps)
          = concat (map (\<lambda>k. rmatch ic s REol (i + k, caps)) (rev [0..<Suc (run ic cc s i)]))"
    by (simp add: comp_def del: upt_Suc)
  also have "\<dots> = (if \<exists>k\<in>set (rev [0..<Suc (run ic cc s i)]). i + k = length s
                    then [(length s, caps)] else [])"
    by (rule concat_eol) simp
  also have "\<dots> = (if i \<le> length s \<and> run ic cc s i = length s - i
                    then [(length s, caps)] else [])"
    using run_le[of ic cc s i] by auto
  finally show ?thesis .
qed

section \<open>Segment scorer: the score of a path\<close>

text \<open>\<open>paramRe\<close> accepts exactly the dynamic segments of the specification.\<close>

lemma regex_test_paramRe: "regex_test paramRe seg = isParamSegment seg"
proof -
  let ?r = "re_source paramRe"
  have anch: "\<And>i. 0 < i \<Longrightarrow> \<not> (rmatch False seg ?r (i, []) \<noteq> [])"
    by (simp add: paramRe_def)
  have "regex_test paramRe seg = (rmatch False seg ?r (0, []) \<noteq> [])"
    unfolding regex_test_def regex_exec_def
    using find_anchored[of "\<lambda>i. rmatch False seg ?r (i, []) \<noteq> []" "length seg", OF anch]
    by (auto simp: paramRe_def split: list.splits option.splits)
  also have "\<dots> = isParamSegment seg"
  proof (cases seg)
    case Nil
    then show ?thesis by (simp add: paramRe_def isParamSegment_def)
  next
    case (Cons c w)
    have f: "(run False WordCh (c # w) (Suc 0) = length w) = list_all isWordChar w"
      using run_full_iff[of False WordCh "c # w" "Suc 0"] by (simp add: list_all_iff)
    have "rmatch False seg ?r (0, [])
            = (if c = CHR '':'' then rmatch False seg (RSeq (RPlus WordCh) REol) (Suc 0, [])
               else [])"
      using Cons by (simp add: paramRe_def del: rmatch.simps(3))
    then show ?thesis
      using f Cons
      by (auto simp: rmatch_plus_eol isParamSegment_def simp del: rmatch.simps)
  qed
  finally show ?thesis .
qed

lemma foldl_add_sum: "foldl (\<lambda>(a::int) x. a + f x) a xs = a + sum_list (map f xs)"
  by (induction xs arbitrary: a) auto

lemma computeScore_sum:
  "computeScore p b =
     int (length (split p)) + (if ''*'' \<in> set (split p) then - 2 else 0) + (if b then 2 else 0)
       + sum_list (map segmentValue (filter (\<lambda>s. s \<noteq> ''*'') (split p)))"
proof -
  have sv: "(\<lambda>segment. if regex_test paramRe segment then dynamicSegmentValue
                 else if segment = [] then emptySegmentValue else staticSegmentValue)
              = segmentValue"
    by (rule ext) (simp add: segmentValue_def regex_test_paramRe dynamicSegmentValue_def
        emptySegmentValue_def staticSegmentValue_def)
  have ex: "list_ex isSplat (split p) = (''*'' \<in> set (split p))"
    by (auto simp: list_ex_iff isSplat_def)
  have fl: "(\<lambda>s. \<not> isSplat s) = (\<lambda>s. s \<noteq> ''*'')"
    by (rule ext) (simp add: isSplat_def)
  have "computeScore p b = (let i0 = int (length (split p));
          i1 = (if ''*'' \<in> set (split p) then i0 + splatPenalty else i0);
          i2 = (if b then i1 + indexRouteValue else i1)
      in i2 + sum_list (map segmentValue (filter (\<lambda>s. s \<noteq> ''*'') (split p))))"
    unfolding computeScore_def sv ex fl foldl_add_sum Let_def ..
  then show ?thesis
    by (simp add: Let_def splatPenalty_def indexRouteValue_def)
qed

lemma computeScore_append:
  assumes "CHR ''/'' \<notin> set seg" and "seg \<noteq> ''*''"
  shows "computeScore (p @ CHR ''/'' # seg) b = computeScore p b + 1 + segmentValue seg"
  using assms by (simp add: computeScore_sum split_append_segment)

lemma isParamSegment_shape:
  assumes "isParamSegment seg"
  shows "CHR ''/'' \<notin> set seg" and "seg \<noteq> ''*''"
proof -
  obtain w where seg: "seg = CHR '':'' # w" and w: "list_all isWordChar w"
    using assms by (auto simp: isParamSegment_def split: list.splits)
  have "\<not> isWordChar CHR ''/''" by (simp add: isWordChar_def)
  then have "CHR ''/'' \<notin> set w" using w by (auto simp: list_all_iff)
  then show "CHR ''/'' \<notin> set seg" using seg by simp
  show "seg \<noteq> ''*''" using seg by simp
qed

text \<open>
  C1, as the code has it.  The score of a path is the number of its segments, minus 2
  if a segment is \<open>*\<close>, plus 2 for an index route, plus for every segment other than \<open>*\<close>
  3 if it is \<open>:name\<close>, 1 if it is empty and 10 otherwise.  One more segment also counts
  in the number of segments, so a static segment appended to a path raises the score by
  11 and a dynamic one by 4.  The score is a function of the path and the index flag
  alone.
\<close>

theorem computeScore_formula:
  "computeScore p b =
     int (length (split p)) + (if ''*'' \<in> set (split p) then - 2 else 0) + (if b then 2 else 0)
       + sum_list (map segmentValue (filter (\<lambda>s. s \<noteq> ''*'') (split p)))
   \<and> length (split p) = Suc (count_list p CHR ''/'')
   \<and> (CHR ''/'' \<notin> set seg \<and> seg \<noteq> [] \<and> seg \<noteq> ''*'' \<and> \<not> isParamSegment seg
        \<longrightarrow> computeScore (p @ CHR ''/'' # seg) b = computeScore p b + 11)
   \<and> (isParamSegment seg
        \<longrightarrow> computeScore (p @ CHR ''/'' # seg) b = computeScore p b + 4)"
proof (intro conjI impI)
  show "computeScore p b =
     int (length (split p)) + (if ''*'' \<in> set (split p) then - 2 else 0) + (if b then 2 else 0)
       + sum_list (map segmentValue (filter (\<lambda>s. s \<noteq> ''*'') (split p)))"
    by (rule computeScore_sum)
  show "length (split p) = Suc (count_list p CHR ''/'')"
    by (rule length_split)
next
  assume "CHR ''/'' \<notin> set seg \<and> seg \<noteq> [] \<and> seg \<noteq> ''*'' \<and> \<not> isParamSegment seg"
  then show "computeScore (p @ CHR ''/'' # seg) b = computeScore p b + 11"
    by (simp add: computeScore_append segmentValue_def)
next
  assume d: "isParamSegment seg"
  show "computeScore (p @ CHR ''/'' # seg) b = computeScore p b + 4"
    using computeScore_append[OF isParamSegment_shape[OF d]] d
    by (simp add: segmentValue_def)
qed

theorem computeScore_formula_witness:
  "computeScore ''/users/new'' False = computeScore ''/users'' False + 11
   \<and> computeScore ''/users/:id'' False = computeScore ''/users'' False + 4
   \<and> computeScore ''/users'' False = 13"
proof -
  have s: "CHR ''/'' \<notin> set ''new'' \<and> ''new'' \<noteq> [] \<and> ''new'' \<noteq> ''*'' \<and> \<not> isParamSegment ''new''"
    by (simp add: isParamSegment_def)
  have d: "isParamSegment '':id''"
    by (simp add: isParamSegment_def isWordChar_def)
  have v: "segmentValue ''users'' = 10" "segmentValue [] = 1"
    by (simp_all add: segmentValue_def isParamSegment_def)
  have "computeScore ''/users'' False = 13"
    using computeScore_formula[of "''/users''" False "''new''"] v by simp
  then show ?thesis
    using computeScore_formula[of "''/users''" False "''new''"]
      computeScore_formula[of "''/users''" False "'':id''"] s d
    by simp
qed

text \<open>
  The increase by exactly 10 that C1 states does not hold: appending the static segment
  \<open>b\<close> to \<open>/a\<close> takes the score from 13 to 24.
\<close>

theorem computeScore_static_increase_counterexample:
  "computeScore (''/a'' @ CHR ''/'' # ''b'') False \<noteq> computeScore ''/a'' False + 10"
proof -
  have v: "segmentValue ''a'' = 10" "segmentValue ''b'' = 10" "segmentValue [] = 1"
    by (simp_all add: segmentValue_def isParamSegment_def)
  show ?thesis using v by (simp add: computeScore_sum)
qed

section \<open>Branch ranker: the order of the ranked branches\<close>

lemma every_butlast:
  "length a = length b \<Longrightarrow> list_all (\<lambda>i. a ! i = b ! i) [0..<length a - 1] = (butlast a = butlast b)"
  by (auto simp: list_all_iff list_eq_iff_nth_eq nth_butlast)

lemma compareIndexes_eq:
  "compareIndexes a b =
     (if length a = length b \<and> butlast a = butlast b \<and> a \<noteq> [] then int (last a) - int (last b) else 0)"
proof (cases "length a = length b")
  case True
  show ?thesis
    unfolding compareIndexes_def Let_def every_butlast[OF True] using True by auto
next
  case False
  then show ?thesis by (simp add: compareIndexes_def)
qed

lemma compareBranches_eq:
  "compareBranches a b =
     (if branch_score a \<noteq> branch_score b then branch_score b - branch_score a
      else if siblings a b then int (lastIndex a) - int (lastIndex b) else 0)"
  by (auto simp: compareBranches_def compareIndexes_eq siblings_def lastIndex_def indexChain_def)

lemma compareBranches_zero: "(compareBranches a b = 0) = ties a b"
  by (auto simp: compareBranches_eq ties_def)

lemma siblings_sym: "siblings a b = siblings b a"
  by (auto simp: siblings_def)

lemma siblings_trans: "siblings a b \<Longrightarrow> siblings b c \<Longrightarrow> siblings a c"
  by (auto simp: siblings_def)

lemma compareBranches_flip: "compareBranches b a = - compareBranches a b"
  using siblings_sym[of a b] by (auto simp: compareBranches_eq)

lemma ties_sym: "ties a b = ties b a"
  using siblings_sym[of a b] by (auto simp: ties_def)

lemma compareBranches_le_trans:
  assumes "compareBranches a b \<le> 0" "compareBranches b c \<le> 0"
    and "ties a b \<and> ties b c \<longrightarrow> ties a c"
  shows "compareBranches a c \<le> 0"
  using assms siblings_trans[of a b c] siblings_trans[of b a c] siblings_trans[of a c b] siblings_sym[of a b] siblings_sym[of b c] siblings_sym[of a c]
  by (auto simp: compareBranches_eq ties_def split: if_splits)


lemma mset_insertBy: "mset (insertBy cmp x ys) = add_mset x (mset ys)"
  by (induction ys) auto

lemma mset_sortBy: "mset (sortBy cmp xs) = mset xs"
  unfolding sortBy_def by (induction xs) (auto simp: mset_insertBy)

lemma set_insertBy: "set (insertBy cmp x ys) = insert x (set ys)"
  using mset_insertBy[of cmp x ys] by (metis set_mset_add_mset_insert set_mset_mset)

lemma set_sortBy: "set (sortBy cmp xs) = set xs"
  using mset_sortBy[of cmp xs] by (metis set_mset_mset)

lemma filter_insertBy_neg: "\<not> P x \<Longrightarrow> filter P (insertBy cmp x ys) = filter P ys"
  by (induction ys) auto

lemma filter_insertBy_pos:
  "P x \<Longrightarrow> (\<And>y. y \<in> set ys \<Longrightarrow> P y \<Longrightarrow> cmp x y \<le> 0)
     \<Longrightarrow> filter P (insertBy cmp x ys) = x # filter P ys"
  by (induction ys) auto

lemma sorted_insertBy:
  assumes "sorted_wrt (\<lambda>a b. cmp a b \<le> 0) ys"
    and tot: "\<And>y. y \<in> set ys \<Longrightarrow> \<not> cmp x y \<le> 0 \<Longrightarrow> cmp y x \<le> 0"
    and tr: "\<And>y z. y \<in> set ys \<Longrightarrow> z \<in> set ys \<Longrightarrow> cmp x y \<le> 0 \<Longrightarrow> cmp y z \<le> 0 \<Longrightarrow> cmp x z \<le> 0"
  shows "sorted_wrt (\<lambda>a b. cmp a b \<le> 0) (insertBy cmp x ys)"
  using assms
proof (induction ys)
  case Nil
  then show ?case by simp
next
  case (Cons y ys)
  show ?case
  proof (cases "cmp x y \<le> 0")
    case True
    then have "\<forall>z\<in>set ys. cmp x z \<le> 0"
      using Cons.prems by auto
    then show ?thesis using True Cons.prems(1) by simp
  next
    case False
    have "sorted_wrt (\<lambda>a b. cmp a b \<le> 0) (insertBy cmp x ys)"
      using Cons by auto
    then show ?thesis
      using False Cons.prems by (auto simp: set_insertBy)
  qed
qed

lemma consistentTies_subset:
  "consistentTies bs \<Longrightarrow> set cs \<subseteq> set bs \<Longrightarrow> consistentTies cs"
  unfolding consistentTies_def by blast

lemma consistentTiesD:
  "consistentTies bs \<Longrightarrow> a \<in> set bs \<Longrightarrow> b \<in> set bs \<Longrightarrow> c \<in> set bs
     \<Longrightarrow> ties a b \<Longrightarrow> ties b c \<Longrightarrow> ties a c"
  unfolding consistentTies_def by blast

lemma sorted_rank:
  assumes "consistentTies bs"
  shows "sorted_wrt (\<lambda>a b. compareBranches a b \<le> 0) (rankRouteBranches bs)"
  using assms
proof (induction bs)
  case Nil
  then show ?case by (simp add: rankRouteBranches_def sortBy_def)
next
  case (Cons x bs)
  have c: "consistentTies bs"
    using Cons.prems by (rule consistentTies_subset) auto
  let ?ys = "sortBy compareBranches bs"
  have ys: "set ?ys = set bs" by (rule set_sortBy)
  have s: "sorted_wrt (\<lambda>a b. compareBranches a b \<le> 0) ?ys"
    using Cons.IH[OF c] by (simp add: rankRouteBranches_def)
  have "sorted_wrt (\<lambda>a b. compareBranches a b \<le> 0) (insertBy compareBranches x ?ys)"
  proof (rule sorted_insertBy[OF s])
    fix y assume "\<not> compareBranches x y \<le> 0"
    then show "compareBranches y x \<le> 0"
      using compareBranches_flip[of x y] by simp
  next
    fix y z
    assume yz: "y \<in> set ?ys" "z \<in> set ?ys"
      and le: "compareBranches x y \<le> 0" "compareBranches y z \<le> 0"
    have "y \<in> set (x # bs)" "z \<in> set (x # bs)" "x \<in> set (x # bs)"
      using yz ys by simp_all
    then have "ties x y \<and> ties y z \<longrightarrow> ties x z"
      using consistentTiesD[OF Cons.prems] by blast
    then show "compareBranches x z \<le> 0"
      by (rule compareBranches_le_trans[OF le])
  qed
  then show ?case by (simp add: rankRouteBranches_def sortBy_def)
qed

lemma stable_rank:
  assumes "consistentTies bs" and "k \<in> set bs"
  shows "filter (ties k) (rankRouteBranches bs) = filter (ties k) bs"
proof -
  have "set cs \<subseteq> set bs \<Longrightarrow> filter (ties k) (sortBy compareBranches cs) = filter (ties k) cs" for cs
  proof (induction cs)
    case Nil
    then show ?case by (simp add: sortBy_def)
  next
    case (Cons x cs)
    let ?ys = "sortBy compareBranches cs"
    have ys: "set ?ys = set cs" by (rule set_sortBy)
    have ih: "filter (ties k) ?ys = filter (ties k) cs" using Cons by simp
    show ?case
    proof (cases "ties k x")
      case False
      then show ?thesis
        using ih by (simp add: sortBy_def filter_insertBy_neg)
    next
      case True
      have "filter (ties k) (insertBy compareBranches x ?ys) = x # filter (ties k) ?ys"
      proof (rule filter_insertBy_pos[of "ties k" x ?ys compareBranches])
        show "ties k x" by (rule True)
      next
        fix y assume y: "y \<in> set ?ys" "ties k y"
        have "ties x k" using True ties_sym by blast
        moreover have "x \<in> set bs" "y \<in> set bs" using Cons.prems y ys by auto
        ultimately have "ties x y"
          using consistentTiesD[OF assms(1), of x k y] assms(2) y(2) by blast
        then show "compareBranches x y \<le> 0" using compareBranches_zero[of x y] by simp
      qed
      then show ?thesis using ih True by (simp add: sortBy_def)
    qed
  qed
  then show ?thesis by (simp add: rankRouteBranches_def)
qed

lemma rank_ordered:
  assumes "consistentTies bs"
  shows "sorted_wrt (\<lambda>a b. branch_score a \<ge> branch_score b) (rankRouteBranches bs)"
    and "sorted_wrt (\<lambda>a b. branch_score a = branch_score b \<and> siblings a b \<longrightarrow> lastIndex a \<le> lastIndex b)
           (rankRouteBranches bs)"
proof -
  note s = sorted_rank[OF assms]
  show "sorted_wrt (\<lambda>a b. branch_score a \<ge> branch_score b) (rankRouteBranches bs)"
    by (rule sorted_wrt_mono_rel[OF _ s]) (auto simp: compareBranches_eq split: if_splits)
  show "sorted_wrt (\<lambda>a b. branch_score a = branch_score b \<and> siblings a b \<longrightarrow> lastIndex a \<le> lastIndex b)
           (rankRouteBranches bs)"
    by (rule sorted_wrt_mono_rel[OF _ s]) (auto simp: compareBranches_eq split: if_splits)
qed

lemma single_chain_consistent:
  assumes "\<And>b. b \<in> set bs \<Longrightarrow> length (branch_routesMeta b) = 1"
  shows "consistentTies bs"
proof -
  have "siblings a b" if "a \<in> set bs" "b \<in> set bs" for a b
    using assms[OF that(1)] assms[OF that(2)]
    by (simp add: siblings_def indexChain_def butlast_conv_take)
  then show ?thesis
    unfolding consistentTies_def ties_def by auto
qed

lemma ties_refl: "ties a a"
  by (simp add: ties_def)

lemma pair_order_kept:
  assumes c: "consistentTies bs" and x: "x \<in> set bs" and y: "y \<in> set bs"
    and t: "branch_score x = branch_score y" "\<not> siblings x y"
  shows "filter (\<lambda>z. z = x \<or> z = y) (rankRouteBranches bs) = filter (\<lambda>z. z = x \<or> z = y) bs"
proof -
  have sub: "(\<lambda>z. z = x \<or> z = y) = (\<lambda>z. (z = x \<or> z = y) \<and> ties x z)"
    using t ties_refl[of x] by (auto simp: ties_def)
  have "filter (\<lambda>z. z = x \<or> z = y) zs = filter (\<lambda>z. z = x \<or> z = y) (filter (ties x) zs)" for zs
    by (subst sub) (simp add: conj_commute)
  then show ?thesis
    using stable_rank[OF c x] by metis
qed

text \<open>
  C3, as the code has it.  On every branch list on which the comparison is consistent,
  \<open>rankRouteBranches\<close> returns the branches by descending score, equal-score siblings by
  ascending last \<open>childrenIndex\<close>, and equal-score branches that are no siblings in their
  input order.  The result is a function of the input list.
\<close>

theorem rankRouteBranches_consistent:
  "consistentTies bs \<longrightarrow> rankedAsSpecified bs (rankRouteBranches bs)"
proof
  assume c: "consistentTies bs"
  have "mset (rankRouteBranches bs) = mset bs"
    by (simp add: rankRouteBranches_def mset_sortBy)
  moreover have "\<forall>x\<in>set bs. \<forall>y\<in>set bs.
             branch_score x = branch_score y \<and> \<not> siblings x y
               \<longrightarrow> filter (\<lambda>z. z = x \<or> z = y) (rankRouteBranches bs) = filter (\<lambda>z. z = x \<or> z = y) bs"
    using pair_order_kept[OF c] by blast
  ultimately show "rankedAsSpecified bs (rankRouteBranches bs)"
    unfolding rankedAsSpecified_def using rank_ordered[OF c] by blast
qed


lemma branchAt_simps:
  "branch_score (branchAt sc chain) = sc" "indexChain (branchAt sc chain) = chain"
  by (simp_all add: branchAt_def indexChain_def comp_def)

theorem rankRouteBranches_consistent_witness:
  "consistentTies [branchAt 1 [1], branchAt 3 [0], branchAt 1 [0]]
   \<and> rankedAsSpecified [branchAt 1 [1], branchAt 3 [0], branchAt 1 [0]]
        (rankRouteBranches [branchAt 1 [1], branchAt 3 [0], branchAt 1 [0]])
   \<and> rankRouteBranches [branchAt 1 [1], branchAt 3 [0], branchAt 1 [0]]
        = [branchAt 3 [0], branchAt 1 [0], branchAt 1 [1]]"
proof -
  have c: "consistentTies [branchAt 1 [1], branchAt 3 [0], branchAt 1 [0]]"
    by (rule single_chain_consistent) (auto simp: branchAt_def)
  have r: "rankRouteBranches [branchAt 1 [1], branchAt 3 [0], branchAt 1 [0]]
        = [branchAt 3 [0], branchAt 1 [0], branchAt 1 [1]]"
    by (simp add: rankRouteBranches_def sortBy_def compareBranches_eq siblings_def lastIndex_def
        branchAt_simps)
  show ?thesis
    using c r rankRouteBranches_consistent[of "[branchAt 1 [1], branchAt 3 [0], branchAt 1 [0]]"]
    by simp
qed

text \<open>
  C3 fails for a list on which the comparison is not consistent: with equal scores, the
  chains \<open>[0, 1]\<close> and \<open>[0, 0]\<close> are siblings and \<open>[5]\<close> is a sibling of neither.
\<close>

theorem rankRouteBranches_counterexample:
  "\<not> rankedAsSpecified [branchAt 0 [0, 1], branchAt 0 [5], branchAt 0 [0, 0]]
        (rankRouteBranches [branchAt 0 [0, 1], branchAt 0 [5], branchAt 0 [0, 0]])"
proof -
  have r: "rankRouteBranches [branchAt 0 [0, 1], branchAt 0 [5], branchAt 0 [0, 0]]
             = [branchAt 0 [0, 1], branchAt 0 [5], branchAt 0 [0, 0]]"
    by (simp add: rankRouteBranches_def sortBy_def compareBranches_eq siblings_def lastIndex_def
        branchAt_simps)
  have "siblings (branchAt 0 [0, 1]) (branchAt 0 [0, 0])"
    by (simp add: siblings_def branchAt_simps)
  moreover have "\<not> lastIndex (branchAt 0 [0, 1]) \<le> lastIndex (branchAt 0 [0, 0])"
    by (simp add: lastIndex_def branchAt_simps)
  ultimately show ?thesis
    unfolding r rankedAsSpecified_def by (simp add: branchAt_simps)
qed

text \<open>No order of these three branches is the one C3 describes, whatever the sort does.\<close>

lemma no_ranking_as_specified:
  "\<not> rankedAsSpecified [branchAt 0 [0, 1], branchAt 0 [5], branchAt 0 [0, 0]] out"
proof
  let ?A = "branchAt 0 [0, 1]" and ?B = "branchAt 0 [5]" and ?C = "branchAt 0 [0, 0]"
  assume a: "rankedAsSpecified [?A, ?B, ?C] out"
  have d: "?A \<noteq> ?B" "?B \<noteq> ?C" "?A \<noteq> ?C"
    by (simp_all add: branchAt_def)
  have sAC: "siblings ?C ?A" "siblings ?A ?C" "\<not> siblings ?A ?B" "\<not> siblings ?B ?C"
    by (simp_all add: siblings_def branchAt_simps)
  have l: "lastIndex ?A = 1" "lastIndex ?C = 0"
    by (simp_all add: lastIndex_def branchAt_simps)
  have m: "mset out = mset [?A, ?B, ?C]" using a by (simp add: rankedAsSpecified_def)
  have AB: "filter (\<lambda>z. z = ?A \<or> z = ?B) out = [?A, ?B]"
    using a sAC d unfolding rankedAsSpecified_def by (auto simp: branchAt_simps)
  have BC: "filter (\<lambda>z. z = ?B \<or> z = ?C) out = [?B, ?C]"
    using a sAC d unfolding rankedAsSpecified_def by (auto simp: branchAt_simps)
  have sib: "sorted_wrt (\<lambda>a b. branch_score a = branch_score b \<and> siblings a b
                              \<longrightarrow> lastIndex a \<le> lastIndex b) out"
    using a by (simp add: rankedAsSpecified_def)
  from m have "length out = 3" by (metis length_Cons list.size(3) numeral_3_eq_3 size_mset)
  then obtain p q r where out: "out = [p, q, r]"
    by (metis (no_types, opaque_lifting) length_0_conv length_Suc_conv numeral_3_eq_3)
  have "set out = {?A, ?B, ?C}" using m by (metis list.simps(15) empty_set set_mset_mset)
  then have pqr: "p \<in> {?A, ?B, ?C}" "q \<in> {?A, ?B, ?C}" "r \<in> {?A, ?B, ?C}"
    using out by auto
  show False
    using AB BC sib pqr d sAC l unfolding out
    by (auto simp: branchAt_simps split: if_splits)
qed

section \<open>Route flattener: what is flattened\<close>

lemma startsWith_Nil [simp]: "startsWith s []"
  by (simp add: startsWith_def)

lemma flattenLoop_top:
  "flattenLoop routes k branches [] [] =
     Inr (branches @ map topBranch (filter (\<lambda>ir. matchable (snd ir)) (enumerate k routes)))"
  by (induction routes arbitrary: k branches)
    (simp_all add: Let_def matchable_def topBranch_def)

lemma flattenLoop_children:
  "flattenLoop (map withoutChildren routes) k branches parentsMeta parentPath
     = flattenLoop routes k branches parentsMeta parentPath"
  by (induction routes arbitrary: k branches) (simp_all add: withoutChildren_def Let_def)

text \<open>
  C4, as the code has it.  \<open>flattenRoutes\<close> reads no route's children.  Called on a route
  list with no parents, it returns one branch for each route of the list that has a path
  or is an index route, in the order of the list, with a chain of the one element that
  holds the position of the route; a route with neither contributes no branch, and no
  descendant of any route does.  Whatever the parents, the result is that of the same
  routes without their children.
\<close>

theorem flattenRoutes_top_level_only:
  "flattenRoutes routes [] [] [] =
     Inr (map topBranch (filter (\<lambda>ir. matchable (snd ir)) (enumerate 0 routes)))
   \<and> flattenRoutes (map withoutChildren routes) branches parentsMeta parentPath
       = flattenRoutes routes branches parentsMeta parentPath"
  by (simp add: flattenRoutes_def flattenLoop_top flattenLoop_children)

theorem flattenRoutes_top_level_only_witness:
  "flattenRoutes [groupRoute, RouteObject (Some ''b'') False False []] [] [] [] =
     Inr [\<lparr>branch_path = ''/b'', branch_score = 13,
           branch_routesMeta = [\<lparr>meta_relativePath = ''b'', meta_caseSensitive = False,
                                 meta_childrenIndex = 1\<rparr>]\<rparr>]"
proof -
  have "map topBranch (filter (\<lambda>ir. matchable (snd ir))
          (enumerate 0 [groupRoute, RouteObject (Some ''b'') False False []]))
        = [\<lparr>branch_path = ''/b'', branch_score = 13,
           branch_routesMeta = [\<lparr>meta_relativePath = ''b'', meta_caseSensitive = False,
                                 meta_childrenIndex = 1\<rparr>]\<rparr>]"
    by code_simp
  then show ?thesis
    using flattenRoutes_top_level_only[of "[groupRoute, RouteObject (Some ''b'') False False []]"]
    by simp
qed

text \<open>
  The descendants that C4 expects in the result are not there: a grouping route with a
  matchable child flattens to no branch at all.
\<close>

theorem flattenRoutes_group_counterexample:
  "flattenRoutes [groupRoute] [] [] [] = Inr []"
  by code_simp

section \<open>Branch matcher: the routes of a match\<close>

lemma routeAt_Nil [simp]: "routeAt [] i = None"
  by (simp add: routeAt_def)

lemma routesSeen_Nil: "routesSeen [] metas = map (\<lambda>_. None) metas"
  by (cases metas) simp_all

lemma matchRouteBranchLoop_routes:
  "matchRouteBranchLoop dec pathname metas routes matchedParams matchedPathname matches
     = Some (ms, finalParams)
   \<Longrightarrow> map rm_route ms = map rm_route matches @ routesSeen routes metas"
proof (induction metas arbitrary: routes matchedParams matchedPathname matches)
  case Nil
  then show ?case by simp
next
  case (Cons meta rest)
  from Cons.prems show ?case
    by (auto simp: Let_def routesSeen_Nil split: option.splits dest!: Cons.IH)
qed

lemma map_route_update: "map rm_route (map (\<lambda>m. m\<lparr>rm_params := ps\<rparr>) ms) = map rm_route ms"
  by (induction ms) simp_all

lemma matchRouteBranch_routes:
  assumes "matchRouteBranch dec branch routes pathname = Some matches"
  shows "map rm_route matches = routesSeen routes (branch_routesMeta branch)"
proof -
  obtain ms ps where
    l: "matchRouteBranchLoop dec pathname (branch_routesMeta branch) routes Map.empty ''/'' [] = Some (ms, ps)"
    and m: "matches = map (\<lambda>m. m\<lparr>rm_params := ps\<rparr>) ms"
    using assms by (auto simp: matchRouteBranch_def split: option.splits)
  show ?thesis
    unfolding m map_route_update using matchRouteBranchLoop_routes[OF l] by simp
qed

lemma flattened_branch:
  assumes "flattenRoutes routes [] [] [] = Inr branches" and "branch \<in> set branches"
  shows "\<exists>i<length routes. branch = topBranch (i, routes ! i)"
proof -
  have "branch \<in> topBranch ` set (enumerate 0 routes)"
    using assms by (auto simp: flattenRoutes_def flattenLoop_top)
  then show ?thesis
    by (auto simp: in_set_enumerate_eq)
qed

text \<open>
  C5, as the code has it.  In a successful result of \<open>matchRouteBranch\<close> the first
  \<open>RouteMatch\<close> holds the route at the first element's \<open>childrenIndex\<close> in the route list
  given (\<open>undefined\<close> beyond its end), and every later \<open>RouteMatch\<close> holds \<open>undefined\<close>: the
  code empties its route list after the first step.  For a branch that \<open>flattenRoutes\<close>
  made of the same list, whose chain has one element, the one \<open>RouteMatch\<close> holds the
  route the branch was flattened from.
\<close>

theorem matchRouteBranch_route_lookup:
  "(matchRouteBranch dec branch routes pathname \<noteq> None \<longrightarrow>
      map_option (map rm_route) (matchRouteBranch dec branch routes pathname)
        = Some (routesSeen routes (branch_routesMeta branch)))
   \<and> (flattenRoutes routes [] [] [] = Inr branches \<and> branch \<in> set branches
        \<and> matchRouteBranch dec branch routes pathname \<noteq> None \<longrightarrow>
      (\<exists>i<length routes. branch = topBranch (i, routes ! i)
         \<and> map_option (map rm_route) (matchRouteBranch dec branch routes pathname)
             = Some [Some (routes ! i)]))"
proof (intro conjI impI)
  assume "matchRouteBranch dec branch routes pathname \<noteq> None"
  then show "map_option (map rm_route) (matchRouteBranch dec branch routes pathname)
        = Some (routesSeen routes (branch_routesMeta branch))"
    using matchRouteBranch_routes by fastforce
next
  assume a: "flattenRoutes routes [] [] [] = Inr branches \<and> branch \<in> set branches
        \<and> matchRouteBranch dec branch routes pathname \<noteq> None"
  then obtain i where i: "i < length routes" "branch = topBranch (i, routes ! i)"
    using flattened_branch by blast
  obtain matches where m: "matchRouteBranch dec branch routes pathname = Some matches"
    using a by blast
  have "map rm_route matches = [Some (routes ! i)]"
    using matchRouteBranch_routes[OF m] i by (simp add: topBranch_def Let_def routeAt_def)
  then show "\<exists>i<length routes. branch = topBranch (i, routes ! i)
         \<and> map_option (map rm_route) (matchRouteBranch dec branch routes pathname)
             = Some [Some (routes ! i)]"
    using i m by auto
qed

lemma nested_matches:
  "map_option (map rm_route) (matchRouteBranch decodeLatin1 nestedBranch [parentRoute] ''/a/b'')
     = Some [Some parentRoute, None]"
  by code_simp

theorem matchRouteBranch_route_lookup_witness:
  "matchRouteBranch decodeLatin1 nestedBranch [parentRoute] ''/a/b'' \<noteq> None
   \<and> map_option (map rm_route) (matchRouteBranch decodeLatin1 nestedBranch [parentRoute] ''/a/b'')
       = Some [Some parentRoute, None]"
proof -
  have n: "matchRouteBranch decodeLatin1 nestedBranch [parentRoute] ''/a/b'' \<noteq> None"
    using nested_matches by auto
  have "routesSeen [parentRoute] (branch_routesMeta nestedBranch) = [Some parentRoute, None]"
    by (simp add: nestedBranch_def routeAt_def)
  then show ?thesis
    using n matchRouteBranch_route_lookup[of decodeLatin1 nestedBranch "[parentRoute]" "''/a/b''"]
    by simp
qed

text \<open>
  The second route of a chain of two is not taken from the children of the first, as C5
  has it: for the parent \<open>/a\<close> with the child \<open>b\<close> and the pathname \<open>/a/b\<close> the second
  \<open>RouteMatch\<close> holds no route.
\<close>

theorem matchRouteBranch_child_counterexample:
  "map_option (map rm_route) (matchRouteBranch decodeLatin1 nestedBranch [parentRoute] ''/a/b'')
     \<noteq> Some [Some parentRoute, Some childRoute]"
  by code_simp

section \<open>matchRoutes: precedence and basename\<close>

lemma matchPath_users_new:
  "matchPath dec (PatternObject \<lparr>pattern_path = ''/users/new'', pattern_caseSensitive = Some False,
                                 pattern_end = Some True\<rparr>) ''/users/new''
     = Some \<lparr>pm_params = Map.empty, pm_pathname = ''/users/new'', pm_pathnameBase = ''/users/new'',
              pm_pattern = \<lparr>pattern_path = ''/users/new'', pattern_caseSensitive = Some False,
                                 pattern_end = Some True\<rparr>\<rparr>"
proof -
  have n: "snd (compilePath ''/users/new'' False True) = []"
    by code_simp
  have e: "regex_exec (fst (compilePath ''/users/new'' False True)) ''/users/new'' = Some (0, 10, [])"
    by code_simp
  have s: "slice ''/users/new'' 0 10 = ''/users/new''"
    by code_simp
  have d: "dropTrailingSlashes ''/users/new'' = ''/users/new''"
    by code_simp
  show ?thesis
    by (simp add: matchPath_def n e s d Let_def)
qed

lemma flatten_users:
  "flattenRoutes [usersId, usersNew] [] [] [] =
     Inr [\<lparr>branch_path = ''/users/:id'', branch_score = 17,
           branch_routesMeta = [\<lparr>meta_relativePath = ''/users/:id'', meta_caseSensitive = False,
                                 meta_childrenIndex = 0\<rparr>]\<rparr>,
          \<lparr>branch_path = ''/users/new'', branch_score = 24,
           branch_routesMeta = [\<lparr>meta_relativePath = ''/users/new'', meta_caseSensitive = False,
                                 meta_childrenIndex = 1\<rparr>]\<rparr>]"
  by code_simp

lemma rank_users:
  "rankRouteBranches
     [\<lparr>branch_path = ''/users/:id'', branch_score = 17,
           branch_routesMeta = [\<lparr>meta_relativePath = ''/users/:id'', meta_caseSensitive = False,
                                 meta_childrenIndex = 0\<rparr>]\<rparr>,
          \<lparr>branch_path = ''/users/new'', branch_score = 24,
           branch_routesMeta = [\<lparr>meta_relativePath = ''/users/new'', meta_caseSensitive = False,
                                 meta_childrenIndex = 1\<rparr>]\<rparr>]
   = [\<lparr>branch_path = ''/users/new'', branch_score = 24,
           branch_routesMeta = [\<lparr>meta_relativePath = ''/users/new'', meta_caseSensitive = False,
                                 meta_childrenIndex = 1\<rparr>]\<rparr>,
      \<lparr>branch_path = ''/users/:id'', branch_score = 17,
           branch_routesMeta = [\<lparr>meta_relativePath = ''/users/:id'', meta_caseSensitive = False,
                                 meta_childrenIndex = 0\<rparr>]\<rparr>]"
  by code_simp

text \<open>
  C2, as the code has it.  For the routes \<open>/users/:id\<close> and \<open>/users/new\<close>, in this order,
  and the pathname \<open>/users/new\<close>, \<open>matchRoutes\<close> returns the match of the static route,
  declared second: its branch has the score 24 and the dynamic one 17, and \<open>matchRoutes\<close>
  tries the ranked branches from the highest score down and returns the first match.
\<close>

theorem matchRoutes_static_first:
  "flattenRoutes [usersId, usersNew] [] [] [] =
     Inr [\<lparr>branch_path = ''/users/:id'', branch_score = 17,
           branch_routesMeta = [\<lparr>meta_relativePath = ''/users/:id'', meta_caseSensitive = False,
                                 meta_childrenIndex = 0\<rparr>]\<rparr>,
          \<lparr>branch_path = ''/users/new'', branch_score = 24,
           branch_routesMeta = [\<lparr>meta_relativePath = ''/users/new'', meta_caseSensitive = False,
                                 meta_childrenIndex = 1\<rparr>]\<rparr>]
   \<and> matchRoutes dec [usersId, usersNew] (LocationString ''/users/new'') ''/''
       = Inr (Some [\<lparr>rm_params = Map.empty, rm_pathname = ''/users/new'',
                      rm_pathnameBase = ''/users/new'', rm_route = Some usersNew\<rparr>])"
proof -
  let ?dyn = "\<lparr>branch_path = ''/users/:id'', branch_score = 17,
           branch_routesMeta = [\<lparr>meta_relativePath = ''/users/:id'', meta_caseSensitive = False,
                                 meta_childrenIndex = 0\<rparr>]\<rparr>"
  let ?stat = "\<lparr>branch_path = ''/users/new'', branch_score = 24,
           branch_routesMeta = [\<lparr>meta_relativePath = ''/users/new'', meta_caseSensitive = False,
                                 meta_childrenIndex = 1\<rparr>]\<rparr>"
  let ?result = "[\<lparr>rm_params = Map.empty, rm_pathname = ''/users/new'',
                      rm_pathnameBase = ''/users/new'', rm_route = Some usersNew\<rparr>]"
  have p: "parsePath ''/users/new'' = \<lparr>to_pathname = Some ''/users/new'', to_search = None, to_hash = None\<rparr>"
    by code_simp
  have j: "joinPaths [''/'', ''/users/new''] = ''/users/new''"
    by code_simp
  have sb: "stripBasename ''/users/new'' ''/'' = Some ''/users/new''"
    by (simp add: stripBasename_def)
  have mb: "matchRouteBranch dec ?stat [usersId, usersNew] ''/users/new'' = Some ?result"
    by (simp add: matchRouteBranch_def matchPath_users_new routeAt_def j Let_def)
  have fm: "firstMatch dec [?stat, ?dyn] [usersId, usersNew] ''/users/new'' = Some ?result"
    by (simp only: firstMatch.simps mb option.case)
  have "matchRoutes dec [usersId, usersNew] (LocationString ''/users/new'') ''/'' = Inr (Some ?result)"
    unfolding matchRoutes_def Let_def LocationArg.case p
    by (simp only: PartialPath.simps option.case list.simps if_False sb flatten_users rank_users
        sum.case fm)
  then show ?thesis
    using flatten_users by simp
qed

text \<open>The scores are not the 20 and 13 that C2 gives.\<close>

theorem users_scores_counterexample:
  "\<not> (computeScore ''/users/new'' False = 20 \<and> computeScore ''/users/:id'' False = 13)"
  by code_simp


theorem matchRoutes_static_first_witness:
  "matchRoutes decodeLatin1 [usersId, usersNew] (LocationString ''/users/new'') ''/''
     = Inr (Some [\<lparr>rm_params = Map.empty, rm_pathname = ''/users/new'',
                    rm_pathnameBase = ''/users/new'', rm_route = Some usersNew\<rparr>])"
  using matchRoutes_static_first[of decodeLatin1] by simp

lemma stripped_not_Nil: "stripped pathname basename \<noteq> []"
  by (simp add: stripped_def Let_def)

lemma matchRoutes_alt:
  "matchRoutes dec routes locationArg basename =
     (case stripBasename (locationPathname locationArg) basename of
        None \<Rightarrow> Inr None
      | Some pathname \<Rightarrow>
          (case flattenRoutes routes [] [] [] of
             Inl e \<Rightarrow> Inl e
           | Inr branches \<Rightarrow> Inr (firstMatch dec (rankRouteBranches branches) routes pathname)))"
  by (simp add: matchRoutes_def locationPathname_def Let_def)

lemma locationPathname_pathnameOnly: "p \<noteq> [] \<Longrightarrow> locationPathname (pathnameOnly p) = p"
  by (simp add: locationPathname_def pathnameOnly_def)

lemma stripBasename_root: "stripBasename p ''/'' = Some p"
  by (simp add: stripBasename_def)

lemma stripBasename_other:
  "basename \<noteq> ''/'' \<Longrightarrow>
   stripBasename p basename =
     (if \<not> startsWith (toLowerCase p) (toLowerCase basename)
         \<or> (charAt p (length basename) \<noteq> [] \<and> charAt p (length basename) \<noteq> ''/'')
      then None else Some (stripped p basename))"
  by (simp add: stripBasename_def stripped_def Let_def)

text \<open>The comparison with the basename folds case on both sides.\<close>

lemma toLowerCase_folds:
  "toLowerCase ''/App/Home'' = ''/app/home''
   \<and> startsWith (toLowerCase ''/App/home'') (toLowerCase ''/app'')
   \<and> startsWith (toLowerCase ''/app/home'') (toLowerCase ''/APP'')
   \<and> \<not> startsWith ''/App/home'' ''/app''"
  by code_simp

lemma matchPath_home:
  "matchPath dec (PatternObject \<lparr>pattern_path = ''/home'', pattern_caseSensitive = Some False,
                                 pattern_end = Some True\<rparr>) ''/home''
     = Some \<lparr>pm_params = Map.empty, pm_pathname = ''/home'', pm_pathnameBase = ''/home'',
              pm_pattern = \<lparr>pattern_path = ''/home'', pattern_caseSensitive = Some False,
                                 pattern_end = Some True\<rparr>\<rparr>"
proof -
  have n: "snd (compilePath ''/home'' False True) = []"
    by code_simp
  have e: "regex_exec (fst (compilePath ''/home'' False True)) ''/home'' = Some (0, 5, [])"
    by code_simp
  have s: "slice ''/home'' 0 5 = ''/home''"
    by code_simp
  have d: "dropTrailingSlashes ''/home'' = ''/home''"
    by code_simp
  show ?thesis
    by (simp add: matchPath_def n e s d Let_def)
qed

lemma matchRoutes_home:
  "matchRoutes dec [homeRoute] (pathnameOnly ''/home'') ''/''
     = Inr (Some [\<lparr>rm_params = Map.empty, rm_pathname = ''/home'',
                    rm_pathnameBase = ''/home'', rm_route = Some homeRoute\<rparr>])"
proof -
  let ?branch = "\<lparr>branch_path = ''/home'', branch_score = 13,
           branch_routesMeta = [\<lparr>meta_relativePath = ''/home'', meta_caseSensitive = False,
                                 meta_childrenIndex = 0\<rparr>]\<rparr>"
  let ?result = "[\<lparr>rm_params = Map.empty, rm_pathname = ''/home'',
                      rm_pathnameBase = ''/home'', rm_route = Some homeRoute\<rparr>]"
  have f: "flattenRoutes [homeRoute] [] [] [] = Inr [?branch]"
    by code_simp
  have r: "rankRouteBranches [?branch] = [?branch]"
    by code_simp
  have j: "joinPaths [''/'', ''/home''] = ''/home''"
    by code_simp
  have mb: "matchRouteBranch dec ?branch [homeRoute] ''/home'' = Some ?result"
    by (simp add: matchRouteBranch_def matchPath_home routeAt_def j Let_def)
  have fm: "firstMatch dec [?branch] [homeRoute] ''/home'' = Some ?result"
    by (simp only: firstMatch.simps mb option.case)
  have l: "locationPathname (pathnameOnly ''/home'') = ''/home''"
    by (simp add: locationPathname_pathnameOnly)
  show ?thesis
    unfolding matchRoutes_alt l stripBasename_root
    by (simp only: option.case f r sum.case fm)
qed

text \<open>
  C7.  With a basename other than \<open>/\<close>, \<open>matchRoutes\<close> returns null, whatever the routes,
  when the pathname does not start with the basename up to case or goes on behind it
  with a character other than \<open>/\<close>; otherwise it returns what it returns for the pathname
  behind the basename with no basename.  So \<open>/app/home\<close> under \<open>/app\<close> matches as \<open>/home\<close>
  does, and so do \<open>/App/home\<close> under \<open>/app\<close> and \<open>/app/home\<close> under \<open>/APP\<close>, the
  comparison being blind to case; \<open>/other\<close> and \<open>/application\<close> under \<open>/app\<close> give null.
\<close>

theorem matchRoutes_basename:
  "(basename \<noteq> ''/'' \<longrightarrow>
     matchRoutes dec routes locationArg basename =
      (if \<not> startsWith (toLowerCase (locationPathname locationArg)) (toLowerCase basename)
          \<or> (charAt (locationPathname locationArg) (length basename) \<noteq> []
              \<and> charAt (locationPathname locationArg) (length basename) \<noteq> ''/'')
       then Inr None
       else matchRoutes dec routes
              (pathnameOnly (stripped (locationPathname locationArg) basename)) ''/''))
   \<and> matchRoutes dec routes (LocationString ''/app/home'') ''/app''
       = matchRoutes dec routes (LocationString ''/home'') ''/''
   \<and> matchRoutes dec routes (LocationString ''/other'') ''/app'' = Inr None
   \<and> matchRoutes dec routes (LocationString ''/App/home'') ''/app''
       = matchRoutes dec routes (LocationString ''/home'') ''/''
   \<and> matchRoutes dec routes (LocationString ''/app/home'') ''/APP''
       = matchRoutes dec routes (LocationString ''/home'') ''/''
   \<and> matchRoutes dec routes (LocationString ''/application'') ''/app'' = Inr None"
proof -
  have general: "matchRoutes dec routes loc b =
      (if \<not> startsWith (toLowerCase (locationPathname loc)) (toLowerCase b)
          \<or> (charAt (locationPathname loc) (length b) \<noteq> []
              \<and> charAt (locationPathname loc) (length b) \<noteq> ''/'')
       then Inr None
       else matchRoutes dec routes (pathnameOnly (stripped (locationPathname loc) b)) ''/'')"
    if b: "b \<noteq> ''/''" for loc b
  proof -
    let ?p = "locationPathname loc"
    have r: "matchRoutes dec routes (pathnameOnly (stripped ?p b)) ''/''
         = (case flattenRoutes routes [] [] [] of
             Inl e \<Rightarrow> Inl e
           | Inr branches \<Rightarrow>
               Inr (firstMatch dec (rankRouteBranches branches) routes (stripped ?p b)))"
      unfolding matchRoutes_alt stripBasename_root
        locationPathname_pathnameOnly[OF stripped_not_Nil] by simp
    show ?thesis
      unfolding r unfolding matchRoutes_alt stripBasename_other[OF b] by simp
  qed
  have b: "''/app'' \<noteq> ''/''" "''/APP'' \<noteq> ''/''" by simp_all
  have h: "locationPathname (LocationString ''/app/home'') = ''/app/home''"
    "locationPathname (LocationString ''/other'') = ''/other''"
    "locationPathname (LocationString ''/home'') = ''/home''"
    "locationPathname (LocationString ''/App/home'') = ''/App/home''"
    "locationPathname (LocationString ''/application'') = ''/application''"
    by code_simp+
  have s: "startsWith (toLowerCase ''/app/home'') (toLowerCase ''/app'')"
    "charAt ''/app/home'' (length ''/app'') = ''/''"
    "stripped ''/app/home'' ''/app'' = ''/home''"
    "\<not> startsWith (toLowerCase ''/other'') (toLowerCase ''/app'')"
    by code_simp+
  have t: "startsWith (toLowerCase ''/App/home'') (toLowerCase ''/app'')"
    "charAt ''/App/home'' (length ''/app'') = ''/''"
    "stripped ''/App/home'' ''/app'' = ''/home''"
    "startsWith (toLowerCase ''/app/home'') (toLowerCase ''/APP'')"
    "charAt ''/app/home'' (length ''/APP'') = ''/''"
    "stripped ''/app/home'' ''/APP'' = ''/home''"
    "charAt ''/application'' (length ''/app'') = ''l''"
    by code_simp+
  have home: "matchRoutes dec routes (pathnameOnly ''/home'') ''/''
                = matchRoutes dec routes (LocationString ''/home'') ''/''"
    unfolding matchRoutes_alt h by (simp add: locationPathname_pathnameOnly)
  have e1: "matchRoutes dec routes (LocationString ''/app/home'') ''/app''
       = matchRoutes dec routes (LocationString ''/home'') ''/''"
    unfolding general[OF b(1)] h using s home by simp
  have e2: "matchRoutes dec routes (LocationString ''/other'') ''/app'' = Inr None"
    unfolding general[OF b(1)] h using s by simp
  have e3: "matchRoutes dec routes (LocationString ''/App/home'') ''/app''
       = matchRoutes dec routes (LocationString ''/home'') ''/''"
    unfolding general[OF b(1)] h using t home by simp
  have e4: "matchRoutes dec routes (LocationString ''/app/home'') ''/APP''
       = matchRoutes dec routes (LocationString ''/home'') ''/''"
    unfolding general[OF b(2)] h using t home by simp
  have e5: "matchRoutes dec routes (LocationString ''/application'') ''/app'' = Inr None"
    unfolding general[OF b(1)] h using t by simp
  show ?thesis
    using general e1 e2 e3 e4 e5 by blast
qed

theorem matchRoutes_basename_witness:
  "''/app'' \<noteq> ''/''
   \<and> matchRoutes decodeLatin1 [homeRoute] (LocationString ''/App/home'') ''/app''
       = Inr (Some [\<lparr>rm_params = Map.empty, rm_pathname = ''/home'',
                      rm_pathnameBase = ''/home'', rm_route = Some homeRoute\<rparr>])
   \<and> matchRoutes decodeLatin1 [homeRoute] (LocationString ''/home'') ''/app'' = Inr None
   \<and> matchRoutes decodeLatin1 [homeRoute] (LocationString ''/application/home'') ''/app''
       = Inr None"
proof -
  have b: "''/app'' \<noteq> ''/''" by simp
  have h: "locationPathname (LocationString ''/App/home'') = ''/App/home''"
    "locationPathname (LocationString ''/home'') = ''/home''"
    "locationPathname (LocationString ''/application/home'') = ''/application/home''"
    by code_simp+
  have s: "startsWith (toLowerCase ''/App/home'') (toLowerCase ''/app'')"
    "charAt ''/App/home'' (length ''/app'') = ''/''"
    "stripped ''/App/home'' ''/app'' = ''/home''"
    "\<not> startsWith (toLowerCase ''/home'') (toLowerCase ''/app'')"
    "startsWith (toLowerCase ''/application/home'') (toLowerCase ''/app'')"
    "charAt ''/application/home'' (length ''/app'') = ''l''"
    by code_simp+
  show ?thesis
    using matchRoutes_basename[of "''/app''" decodeLatin1 "[homeRoute]" "LocationString ''/App/home''"]
      matchRoutes_basename[of "''/app''" decodeLatin1 "[homeRoute]" "LocationString ''/home''"]
      matchRoutes_basename[of "''/app''" decodeLatin1 "[homeRoute]"
        "LocationString ''/application/home''"]
    unfolding h using s matchRoutes_home[of decodeLatin1] by simp
qed

section \<open>Path resolver: leading parent segments\<close>

lemma join_Cons: "ys \<noteq> [] \<Longrightarrow> join (x # ys) = x @ CHR ''/'' # join ys"
  by (cases ys) simp_all

lemma join_split: "join (split s) = s"
proof (induction s)
  case Nil
  then show ?case by simp
next
  case (Cons c cs)
  show ?case
  proof (cases "c = CHR ''/''")
    case True
    then show ?thesis using Cons by (simp add: join_Cons)
  next
    case False
    obtain seg segs where s: "split cs = seg # segs"
      by (cases "split cs") simp_all
    have "join ((c # seg) # segs) = c # join (seg # segs)"
      by (cases segs) simp_all
    then show ?thesis using False Cons s by simp
  qed
qed

lemma stepUp_replicate:
  "rest = [] \<or> hd rest \<noteq> ''..'' \<Longrightarrow> stepUp (replicate k ''..'' @ rest) i = (rest, i - int k)"
proof (induction k arbitrary: i)
  case 0
  then show ?case by (cases rest) simp_all
next
  case (Suc k)
  then show ?case by simp
qed

lemma startsWith_first_segment:
  assumes "split tp = seg # segs"
  shows "startsWith tp seg"
proof -
  have "tp = join (seg # segs)" using assms join_split[of tp] by simp
  then show ?thesis by (cases segs) (simp_all add: startsWith_def)
qed

lemma resolveTo_up:
  assumes o: "toObject toArg = to" and p: "to_pathname to = Some tp"
    and s: "split tp = replicate k ''..'' @ rest" and k: "0 < k"
    and r: "rest = [] \<or> hd rest \<noteq> ''..''"
  shows "resolveTo toArg routePathnames current =
           keepTrailingSlash tp
             (resolvePath (ToObject (to\<lparr>to_pathname := Some (join rest)\<rparr>))
                (ancestorPathname routePathnames k))"
proof -
  obtain k' where k': "k = Suc k'" using k by (cases k) simp_all
  have sw: "startsWith tp ''..''"
    using startsWith_first_segment[of tp "''..''" "replicate k' ''..'' @ rest"] s k' by simp
  then have ne: "tp \<noteq> []" by (auto simp: startsWith_def)
  have na: "toArg \<noteq> ToString []"
    using o p by (auto simp: toObject_def parsePath_def)
  have st: "stepUp (split tp) (int (length routePathnames) - 1)
              = (rest, int (length routePathnames) - 1 - int k)"
    unfolding s by (rule stepUp_replicate[OF r])
  have u: "resolveTo toArg routePathnames current =
      (case stepUp (split tp) (int (length routePathnames) - 1) of
         (segs, idx) \<Rightarrow>
           keepTrailingSlash tp
             (resolvePath (ToObject (to\<lparr>to_pathname := Some (join segs)\<rparr>))
                (if idx \<ge> 0 then routePathnames ! nat idx else ''/'')))"
    unfolding resolveTo_def o using p ne na sw
    by (simp add: Let_def keepTrailingSlash_def split: prod.splits)
  have fr: "(if int (length routePathnames) - 1 - int k \<ge> 0
               then routePathnames ! nat (int (length routePathnames) - 1 - int k) else ''/'')
              = ancestorPathname routePathnames k"
  proof (cases "k < length routePathnames")
    case True
    then have "nat (int (length routePathnames) - 1 - int k) = length routePathnames - 1 - k"
      by simp
    then show ?thesis using True by (simp add: ancestorPathname_def)
  next
    case False
    then show ?thesis by (simp add: ancestorPathname_def)
  qed
  show ?thesis
    unfolding u st prod.case fr ..
qed

lemma resolveTo_example:
  "resolveTo (ToString ''../sibling'') [''/a'', ''/a/b''] ''/a/b/current''
     = \<lparr>path_pathname = ''/a/sibling'', path_search = [], path_hash = []\<rparr>"
  by code_simp

text \<open>
  C9.  When the segments of the target pathname start with \<open>k\<close> segments \<open>..\<close>, \<open>k\<close> at
  least one, \<open>resolveTo\<close> resolves the segments behind them against the entry of
  \<open>routePathnames\<close> that lies \<open>k\<close> levels above the last, one level of the list for each
  \<open>..\<close> and no segment of a URL, and against \<open>/\<close> when the list has no such entry.  So
  \<open>../sibling\<close> among the routes \<open>/a\<close> and \<open>/a/b\<close> resolves to the pathname \<open>/a/sibling\<close>.
\<close>

theorem resolveTo_parent_segments:
  "(toObject toArg = to \<and> to_pathname to = Some tp
      \<and> split tp = replicate k ''..'' @ rest \<and> 0 < k \<and> (rest = [] \<or> hd rest \<noteq> ''..'')
    \<longrightarrow> resolveTo toArg routePathnames current =
           keepTrailingSlash tp
             (resolvePath (ToObject (to\<lparr>to_pathname := Some (join rest)\<rparr>))
                (ancestorPathname routePathnames k)))
   \<and> path_pathname (resolveTo (ToString ''../sibling'') [''/a'', ''/a/b''] ''/a/b/current'')
       = ''/a/sibling''"
  using resolveTo_up[of toArg to tp k rest routePathnames current] resolveTo_example
  by simp

theorem resolveTo_parent_segments_witness:
  "toObject (ToString ''../sibling'')
       = \<lparr>to_pathname = Some ''../sibling'', to_search = None, to_hash = None\<rparr>
   \<and> split ''../sibling'' = replicate 1 ''..'' @ [''sibling'']
   \<and> resolveTo (ToString ''../sibling'') [''/a'', ''/a/b''] ''/a/b/current''
       = keepTrailingSlash ''../sibling''
           (resolvePath (ToObject \<lparr>to_pathname = Some ''sibling'', to_search = None, to_hash = None\<rparr>)
              ''/a'')
   \<and> ancestorPathname [''/a'', ''/a/b''] 1 = ''/a''"
proof -
  have o: "toObject (ToString ''../sibling'')
       = \<lparr>to_pathname = Some ''../sibling'', to_search = None, to_hash = None\<rparr>"
    by code_simp
  have s: "split ''../sibling'' = replicate 1 ''..'' @ [''sibling'']"
    by code_simp
  have a: "ancestorPathname [''/a'', ''/a/b''] 1 = ''/a''"
    by code_simp
  have j: "join [''sibling''] = ''sibling''"
    by simp
  show ?thesis
    using resolveTo_parent_segments[of "ToString ''../sibling''"
        "\<lparr>to_pathname = Some ''../sibling'', to_search = None, to_hash = None\<rparr>"
        "''../sibling''" 1 "[''sibling'']" "[''/a'', ''/a/b'']" "''/a/b/current''"]
    using o s a j by simp
qed

section \<open>Pattern compiler: a star without its slash\<close>

lemma endsWith_append_self [simp]: "endsWith (q @ s) s"
  by (simp add: endsWith_def)

lemma stripTrailingSlashes_snoc [simp]: "stripTrailingSlashes (q @ ''/'') = stripTrailingSlashes q"
  by (simp add: stripTrailingSlashes_def)

lemma stripTrailingSplat_star: "stripTrailingSplat (q @ ''*'') = stripTrailingSlashes q"
  using endsWith_append_self[of q "''*''"] by (simp add: stripTrailingSplat_def)

lemma stripTrailingSplat_slash_star: "stripTrailingSplat (q @ ''/*'') = stripTrailingSlashes q"
proof -
  have "endsWith (q @ ''/*'') ''*''"
    using endsWith_append_self[of "q @ ''/''" "''*''"] by simp
  moreover have "butlast (q @ ''/*'') = q @ ''/''"
    by (simp add: butlast_append)
  ultimately show ?thesis
    by (simp add: stripTrailingSplat_def)
qed

lemma compilePath_star:
  assumes "q \<noteq> []" and "last q \<noteq> CHR ''/''"
  shows "compilePath (q @ ''*'') cs e = compilePath (q @ ''/*'') cs e"
proof -
  have e1: "endsWith (q @ ''*'') ''*''" by (rule endsWith_append_self)
  have e2: "endsWith (q @ ''/*'') ''*''"
    using endsWith_append_self[of "q @ ''/''" "''*''"] by simp
  have n1: "q @ ''*'' \<noteq> ''*''" "q @ ''/*'' \<noteq> ''*''" "q @ ''/*'' \<noteq> ''/*''"
    using assms(1) by (auto simp: append_eq_Cons_conv)
  have n2: "q @ ''*'' \<noteq> ''/*''"
  proof
    assume "q @ ''*'' = ''/*''"
    then have "q = ''/''" by (simp add: append_eq_Cons_conv)
    then show False using assms(2) by simp
  qed
  show ?thesis
    unfolding compilePath_def stripTrailingSplat_star stripTrailingSplat_slash_star
    using e1 e2 n1 n2 by (simp add: Let_def)
qed

lemma compilePath_warns_star:
  assumes "q \<noteq> []" and "last q \<noteq> CHR ''/''"
  shows "compilePath_warns (q @ ''*'')" and "\<not> compilePath_warns (q @ ''/*'')"
proof -
  have "\<not> endsWith (q @ ''*'') ''/*''"
    using assms by (auto simp: endsWith_def drop_Suc last_conv_nth nth_append 
        dest!: arg_cong[where f=hd] simp: hd_drop_conv_nth)
  moreover have "q @ ''*'' \<noteq> ''*''" using assms(1) by simp
  ultimately show "compilePath_warns (q @ ''*'')"
    by (simp add: compilePath_warns_def)
  show "\<not> compilePath_warns (q @ ''/*'')"
    by (simp add: compilePath_warns_def)
qed

lemma matchPath_patternOf:
  "matchPath dec patternArg pathname = matchPath dec (PatternObject (patternOf patternArg)) pathname"
  by (simp add: matchPath_def patternOf_def)

lemma matchPath_same_matcher:
  assumes "compilePath (pattern_path a) (case pattern_caseSensitive a of None \<Rightarrow> False | Some b \<Rightarrow> b)
             (case pattern_end a of None \<Rightarrow> True | Some b \<Rightarrow> b)
         = compilePath (pattern_path b) (case pattern_caseSensitive b of None \<Rightarrow> False | Some b \<Rightarrow> b)
             (case pattern_end b of None \<Rightarrow> True | Some b \<Rightarrow> b)"
  shows "matchPath dec (PatternObject b) pathname
       = map_option (\<lambda>m. m\<lparr>pm_pattern := b\<rparr>) (matchPath dec (PatternObject a) pathname)"
  unfolding matchPath_def Let_def PatternArg.case assms[symmetric]
  by (simp split: option.splits prod.splits)


text \<open>
  C8.  A pattern that ends in a star with no slash before it, and is not the star alone,
  compiles to the matcher and the parameter names of the pattern with a slash put
  before the star; the spelling without the slash makes \<open>compilePath\<close> warn and the other
  does not; and \<open>matchPath\<close> gives the same result for both on every pathname, up to the
  pattern it hands back.
\<close>

theorem compilePath_star_without_slash:
  "q \<noteq> [] \<and> last q \<noteq> CHR ''/'' \<longrightarrow>
     compilePath (q @ ''*'') caseSensitive end = compilePath (q @ ''/*'') caseSensitive end
     \<and> compilePath_warns (q @ ''*'') \<and> \<not> compilePath_warns (q @ ''/*'')
     \<and> matchPath dec (PatternObject (pattern\<lparr>pattern_path := q @ ''/*''\<rparr>)) pathname
         = map_option (\<lambda>m. m\<lparr>pm_pattern := pattern\<lparr>pattern_path := q @ ''/*''\<rparr>\<rparr>)
             (matchPath dec (PatternObject (pattern\<lparr>pattern_path := q @ ''*''\<rparr>)) pathname)
     \<and> matchPath dec (PatternString (q @ ''/*'')) pathname
         = map_option (\<lambda>m. m\<lparr>pm_pattern := patternOf (PatternString (q @ ''/*''))\<rparr>)
             (matchPath dec (PatternString (q @ ''*'')) pathname)"
proof (intro impI conjI)
  assume a: "q \<noteq> [] \<and> last q \<noteq> CHR ''/''"
  then have q: "q \<noteq> []" "last q \<noteq> CHR ''/''" by simp_all
  show "compilePath (q @ ''*'') caseSensitive end = compilePath (q @ ''/*'') caseSensitive end"
    by (rule compilePath_star[OF q])
  show "compilePath_warns (q @ ''*'')" by (rule compilePath_warns_star(1)[OF q])
  show "\<not> compilePath_warns (q @ ''/*'')" by (rule compilePath_warns_star(2)[OF q])
  show "matchPath dec (PatternObject (pattern\<lparr>pattern_path := q @ ''/*''\<rparr>)) pathname
         = map_option (\<lambda>m. m\<lparr>pm_pattern := pattern\<lparr>pattern_path := q @ ''/*''\<rparr>\<rparr>)
             (matchPath dec (PatternObject (pattern\<lparr>pattern_path := q @ ''*''\<rparr>)) pathname)"
    by (rule matchPath_same_matcher) (simp add: compilePath_star[OF q])
  show "matchPath dec (PatternString (q @ ''/*'')) pathname
         = map_option (\<lambda>m. m\<lparr>pm_pattern := patternOf (PatternString (q @ ''/*''))\<rparr>)
             (matchPath dec (PatternString (q @ ''*'')) pathname)"
    unfolding matchPath_patternOf[of dec "PatternString (q @ ''/*'')"]
      matchPath_patternOf[of dec "PatternString (q @ ''*'')"]
    by (rule matchPath_same_matcher) (simp add: patternOf_def compilePath_star[OF q])
qed

theorem compilePath_star_without_slash_witness:
  "''foo'' \<noteq> [] \<and> last ''foo'' \<noteq> CHR ''/''
   \<and> matchPath decodeLatin1 (PatternString ''foo*'') ''/foo/a/b'' \<noteq> None
   \<and> compilePath ''foo*'' False True = compilePath ''foo/*'' False True
   \<and> compilePath_warns ''foo*'' \<and> \<not> compilePath_warns ''foo/*''
   \<and> matchPath decodeLatin1 (PatternString ''foo/*'') ''/foo/a/b''
       = map_option (\<lambda>m. m\<lparr>pm_pattern := patternOf (PatternString ''foo/*'')\<rparr>)
           (matchPath decodeLatin1 (PatternString ''foo*'') ''/foo/a/b'')"
proof -
  have "matchPath decodeLatin1 (PatternString ''foo*'') ''/foo/a/b'' \<noteq> None"
    by code_simp
  then show ?thesis
    using compilePath_star_without_slash[of "''foo''" False True decodeLatin1 _ "''/foo/a/b''"]
    by simp
qed

section \<open>matchPath: the matched prefix and its base\<close>

lemma find_upt_Some:
  "List.find P [0..<n] = Some i \<Longrightarrow> i < n \<and> P i \<and> (\<forall>j<i. \<not> P j)"
  by (auto simp: find_Some_iff)

lemma find_upt_None: "List.find P [0..<n] = None \<Longrightarrow> i < n \<Longrightarrow> \<not> P i"
  by (auto simp: find_None_iff)

lemma regex_exec_Some:
  assumes "regex_exec re s = Some (i, j, caps)"
  shows "i \<le> length s"
    and "rmatch (re_ignoreCase re) s (re_source re) (i, []) \<noteq> []"
    and "hd (rmatch (re_ignoreCase re) s (re_source re) (i, [])) = (j, caps)"
    and "\<forall>k<i. rmatch (re_ignoreCase re) s (re_source re) (k, []) = []"
proof -
  let ?P = "\<lambda>i. rmatch (re_ignoreCase re) s (re_source re) (i, []) \<noteq> []"
  from assms obtain i' where f: "List.find ?P [0..<Suc (length s)] = Some i'"
    by (auto simp: regex_exec_def split: option.splits)
  with assms have ii: "i' = i" and h: "hd (rmatch (re_ignoreCase re) s (re_source re) (i, [])) = (j, caps)"
    by (auto simp: regex_exec_def split: list.splits)
  note fs = find_upt_Some[OF f]
  show "i \<le> length s" using fs ii by simp
  show "rmatch (re_ignoreCase re) s (re_source re) (i, []) \<noteq> []" using fs ii by simp
  show "hd (rmatch (re_ignoreCase re) s (re_source re) (i, [])) = (j, caps)" by (rule h)
  show "\<forall>k<i. rmatch (re_ignoreCase re) s (re_source re) (k, []) = []" using fs ii by simp
qed

lemma regex_exec_None:
  assumes "regex_exec re s = None" and "i \<le> length s"
  shows "rmatch (re_ignoreCase re) s (re_source re) (i, []) = []"
proof -
  let ?P = "\<lambda>i. rmatch (re_ignoreCase re) s (re_source re) (i, []) \<noteq> []"
  have "List.find ?P [0..<Suc (length s)] = None"
  proof (cases "List.find ?P [0..<Suc (length s)]")
    case None
    then show ?thesis .
  next
    case (Some k)
    have "?P k" using find_upt_Some[OF Some] by simp
    then show ?thesis
      using assms(1) Some unfolding regex_exec_def by (auto split: list.splits)
  qed
  from find_upt_None[OF this, of i] assms(2) show ?thesis by simp
qed

text \<open>Where \<open>/(.)\/+$/\<close> matches.\<close>

lemma trailingSlashes_at:
  "rmatch False s (re_source trailingSlashesRe) (i, []) =
     (if Suc i < length s \<and> \<not> isLineTerminator (s ! i)
         \<and> (\<forall>c\<in>set (drop (Suc i) s). c = CHR ''/'')
      then [(length s, [Some [s ! i]])] else [])"
proof -
  have r: "(run False (Lit CHR ''/'') s (Suc i) = length s - Suc i)
             = (\<forall>c\<in>set (drop (Suc i) s). c = CHR ''/'')"
    by (simp add: run_full_iff)
  have g: "rmatch False s (RGroup (RAtom Dot)) (i, []) =
             (if i < length s \<and> \<not> isLineTerminator (s ! i) then [(Suc i, [Some [s ! i]])] else [])"
    by (simp add: slice_def take_Suc_conv_app_nth[of i s, symmetric] Cons_nth_drop_Suc[symmetric]
        take_Suc)
  have "rmatch False s (re_source trailingSlashesRe) (i, [])
          = concat (map (rmatch False s (RSeq (RPlus (Lit CHR ''/'')) REol))
                     (rmatch False s (RGroup (RAtom Dot)) (i, [])))"
    by (simp add: trailingSlashesRe_def)
  also have "\<dots> = (if Suc i < length s \<and> \<not> isLineTerminator (s ! i)
         \<and> (\<forall>c\<in>set (drop (Suc i) s). c = CHR ''/'')
      then [(length s, [Some [s ! i]])] else [])"
    unfolding g using r by (auto simp: rmatch_plus_eol simp del: rmatch.simps)
  finally show ?thesis .
qed

lemma dropTrailingSlashes_cases:
  "(dropTrailingSlashes s = s \<and> (\<forall>i\<le>length s. rmatch False s (re_source trailingSlashesRe) (i, []) = []))
   \<or> (\<exists>i. Suc i < length s \<and> dropTrailingSlashes s = take (Suc i) s
          \<and> rmatch False s (re_source trailingSlashesRe) (i, []) \<noteq> []
          \<and> (\<forall>k<i. rmatch False s (re_source trailingSlashesRe) (k, []) = []))"
proof (cases "regex_exec trailingSlashesRe s")
  case None
  have "\<forall>i\<le>length s. rmatch False s (re_source trailingSlashesRe) (i, []) = []"
    using regex_exec_None[OF None] by (simp add: trailingSlashesRe_def)
  then show ?thesis using None by (simp add: dropTrailingSlashes_def)
next
  case (Some r)
  obtain i j caps where r: "r = (i, j, caps)" by (cases r) auto
  note e = regex_exec_Some[OF Some[unfolded r]]
  have ic: "re_ignoreCase trailingSlashesRe = False" by (simp add: trailingSlashesRe_def)
  have ne: "rmatch False s (re_source trailingSlashesRe) (i, []) \<noteq> []"
    using e(2) ic by simp
  then have c: "Suc i < length s" "rmatch False s (re_source trailingSlashesRe) (i, []) = [(length s, [Some [s ! i]])]"
    by (auto simp: trailingSlashes_at split: if_splits)
  have jc: "j = length s" "caps = [Some [s ! i]]"
    using e(3) c(2) ic by simp_all
  have "dropTrailingSlashes s = take i s @ [s ! i]"
    using Some r jc by (simp add: dropTrailingSlashes_def captureOrEmpty_def)
  then have "dropTrailingSlashes s = take (Suc i) s"
    using c(1) by (simp add: take_Suc_conv_app_nth)
  then show ?thesis using c(1) ne e(4) ic by auto
qed

lemma startsWith_take [simp]: "startsWith s (take n s)"
  by (simp add: startsWith_def min_def take_all)

lemma startsWith_refl [simp]: "startsWith s s"
  by (simp add: startsWith_def)

lemma startsWith_trans: "startsWith b c \<Longrightarrow> startsWith a b \<Longrightarrow> startsWith a c"
  unfolding startsWith_def
  by (metis append_eq_conv_conj append_take_drop_id append.assoc)

lemma dropTrailingSlashes_prefix: "startsWith s (dropTrailingSlashes s)"
  using dropTrailingSlashes_cases[of s] by auto

lemma endsWith_slash: "endsWith s ''/'' = (s \<noteq> [] \<and> last s = CHR ''/'')"
proof (cases s rule: rev_cases)
  case Nil
  then show ?thesis by (simp add: endsWith_def)
next
  case (snoc ys y)
  then show ?thesis by (auto simp: endsWith_def)
qed

lemma dropTrailingSlashes_end:
  assumes lt: "\<forall>c\<in>set s. \<not> isLineTerminator c"
  shows "dropTrailingSlashes s = ''/'' \<or> \<not> endsWith (dropTrailingSlashes s) ''/''"
proof -
  from dropTrailingSlashes_cases[of s] show ?thesis
  proof (elim disjE conjE exE)
    assume same: "dropTrailingSlashes s = s"
      and none: "\<forall>i\<le>length s. rmatch False s (re_source trailingSlashesRe) (i, []) = []"
    show ?thesis
    proof (rule ccontr)
      assume "\<not> ?thesis"
      then have ne: "s \<noteq> ''/''" and es: "s \<noteq> []" "last s = CHR ''/''"
        using same by (auto simp: endsWith_slash)
      then have l2: "2 \<le> length s"
        by (cases s rule: rev_cases; cases "butlast s") auto 
      let ?i = "length s - 2"
      have d: "drop (Suc ?i) s = [last s]"
        using l2 es by (metis Suc_diff_Suc Suc_1 Suc_le_lessD append_butlast_last_id 
            append_eq_conv_conj diff_Suc_1 length_butlast numeral_2_eq_2)
      have "\<not> isLineTerminator (s ! ?i)" using lt l2 by simp
      then have "rmatch False s (re_source trailingSlashesRe) (?i, []) \<noteq> []"
        using l2 d es by (simp add: trailingSlashes_at)
      then show False using none by simp
    qed
  next
    fix i
    assume i: "Suc i < length s" and r: "dropTrailingSlashes s = take (Suc i) s"
      and m: "rmatch False s (re_source trailingSlashesRe) (i, []) \<noteq> []"
      and least: "\<forall>k<i. rmatch False s (re_source trailingSlashesRe) (k, []) = []"
    have all: "\<forall>c\<in>set (drop (Suc i) s). c = CHR ''/''"
      using m by (auto simp: trailingSlashes_at split: if_splits)
    have lastr: "last (take (Suc i) s) = s ! i"
      using i by (simp add: take_Suc_conv_app_nth)
    show ?thesis
    proof (cases i)
      case 0
      then show ?thesis
        using r i lastr by (cases s) (auto simp: endsWith_slash)
    next
      case (Suc k)
      have "s ! i \<noteq> CHR ''/''"
      proof
        assume sl: "s ! i = CHR ''/''"
        have "drop (Suc k) s = s ! i # drop (Suc i) s"
          using i Suc by (simp add: Cons_nth_drop_Suc)
        then have "\<forall>c\<in>set (drop (Suc k) s). c = CHR ''/''"
          using all sl by simp
        moreover have "\<not> isLineTerminator (s ! k)" using lt i Suc by simp
        ultimately have "rmatch False s (re_source trailingSlashesRe) (k, []) \<noteq> []"
          using i Suc by (simp add: trailingSlashes_at)
        then show False using least Suc by simp
      qed
      then show ?thesis
        using r lastr i by (auto simp: endsWith_slash)
    qed
  qed
qed


lemma compilePath_anchored: "\<exists>r. re_source (fst (compilePath p cs e)) = RSeq RBol r"
  by (simp add: compilePath_def Let_def)

lemma exec_anchored:
  assumes "re_source re = RSeq RBol r" and "regex_exec re s = Some (i, j, caps)"
  shows "i = 0"
proof (rule ccontr)
  assume "i \<noteq> 0"
  then have "rmatch (re_ignoreCase re) s (re_source re) (i, []) = []"
    by (simp add: assms(1))
  then show False using regex_exec_Some(2)[OF assms(2)] by simp
qed

lemma paramStep_base:
  "snd (foldl (paramStep dec m caps) st xs) = snd st
   \<or> (\<exists>n. snd (foldl (paramStep dec m caps) st xs) = dropTrailingSlashes (take n m))"
proof (induction xs rule: rev_induct)
  case Nil
  then show ?case by simp
next
  case (snoc x xs)
  obtain memo base where f: "foldl (paramStep dec m caps) st xs = (memo, base)"
    by (cases "foldl (paramStep dec m caps) st xs") auto
  obtain name index where x: "x = (name, index)" by (cases x) auto
  show ?case
    using snoc unfolding foldl_append f x
    by (auto simp: paramStep_def Let_def)
qed

lemma matchPath_Some:
  assumes "matchPath dec patternArg pathname = Some m"
  shows "\<exists>j. pm_pathname m = take j pathname
           \<and> (pm_pathnameBase m = dropTrailingSlashes (pm_pathname m)
               \<or> (\<exists>n. pm_pathnameBase m = dropTrailingSlashes (take n (pm_pathname m))))"
proof -
  let ?c = "compilePath (pattern_path (patternOf patternArg))
              (case pattern_caseSensitive (patternOf patternArg) of None \<Rightarrow> False | Some b \<Rightarrow> b)
              (case pattern_end (patternOf patternArg) of None \<Rightarrow> True | Some b \<Rightarrow> b)"
  obtain i j caps where e: "regex_exec (fst ?c) pathname = Some (i, j, caps)"
    and m: "m = \<lparr>pm_params = fst (foldl (paramStep dec (slice pathname i j) caps)
                        (Map.empty, dropTrailingSlashes (slice pathname i j))
                        (zip (snd ?c) [0..<length (snd ?c)])),
                 pm_pathname = slice pathname i j,
                 pm_pathnameBase = snd (foldl (paramStep dec (slice pathname i j) caps)
                        (Map.empty, dropTrailingSlashes (slice pathname i j))
                        (zip (snd ?c) [0..<length (snd ?c)])),
                 pm_pattern = patternOf patternArg\<rparr>"
    using assms unfolding matchPath_def patternOf_def Let_def
    by (auto split: option.splits)
  obtain r where "re_source (fst ?c) = RSeq RBol r"
    using compilePath_anchored by blast
  then have "i = 0" using exec_anchored e by blast
  then have p: "pm_pathname m = take j pathname" by (simp add: m slice_def)
  have "pm_pathnameBase m = dropTrailingSlashes (pm_pathname m)
               \<or> (\<exists>n. pm_pathnameBase m = dropTrailingSlashes (take n (pm_pathname m)))"
    using paramStep_base[of dec "slice pathname i j" caps
        "(Map.empty, dropTrailingSlashes (slice pathname i j))" "zip (snd ?c) [0..<length (snd ?c)]"]
    by (simp add: m)
  then show ?thesis using p by blast
qed

text \<open>
  C10, as the code has it.  In every match that \<open>matchPath\<close> returns, \<open>pathnameBase\<close> is a
  prefix of the matched \<open>pathname\<close>, which is a prefix of the pathname given; and when the
  pathname given holds no line terminator, \<open>pathnameBase\<close> is \<open>/\<close> or does not end in a
  slash.
\<close>

theorem matchPath_prefixes:
  "matchPath dec patternArg pathname = Some m \<longrightarrow>
     startsWith (pm_pathname m) (pm_pathnameBase m)
     \<and> startsWith pathname (pm_pathname m)
     \<and> ((\<forall>c\<in>set pathname. \<not> isLineTerminator c)
          \<longrightarrow> pm_pathnameBase m = ''/'' \<or> \<not> endsWith (pm_pathnameBase m) ''/'')"
proof (intro impI conjI)
  assume a: "matchPath dec patternArg pathname = Some m"
  from matchPath_Some[OF a] obtain j where
    p: "pm_pathname m = take j pathname"
    and b: "pm_pathnameBase m = dropTrailingSlashes (pm_pathname m)
               \<or> (\<exists>n. pm_pathnameBase m = dropTrailingSlashes (take n (pm_pathname m)))"
    by blast
  show "startsWith pathname (pm_pathname m)" by (simp add: p)
  show "startsWith (pm_pathname m) (pm_pathnameBase m)"
    using b dropTrailingSlashes_prefix startsWith_trans[OF dropTrailingSlashes_prefix startsWith_take]
    by auto
  assume lt: "\<forall>c\<in>set pathname. \<not> isLineTerminator c"
  have "\<forall>c\<in>set (take n (pm_pathname m)). \<not> isLineTerminator c" for n
    using lt p by (metis in_set_takeD)
  moreover have "\<forall>c\<in>set (pm_pathname m). \<not> isLineTerminator c"
    using lt p by (metis in_set_takeD)
  ultimately show "pm_pathnameBase m = ''/'' \<or> \<not> endsWith (pm_pathnameBase m) ''/''"
    using b dropTrailingSlashes_end by metis
qed

lemma matchPath_string:
  "matchPath dec (PatternString p) pathname =
     (case regex_exec (fst (compilePath p False True)) pathname of
        None \<Rightarrow> None
      | Some (i, j, caps) \<Rightarrow>
          Some \<lparr>pm_params = fst (foldl (paramStep dec (slice pathname i j) caps)
                        (Map.empty, dropTrailingSlashes (slice pathname i j))
                        (zip (snd (compilePath p False True))
                           [0..<length (snd (compilePath p False True))])),
                pm_pathname = slice pathname i j,
                pm_pathnameBase = snd (foldl (paramStep dec (slice pathname i j) caps)
                        (Map.empty, dropTrailingSlashes (slice pathname i j))
                        (zip (snd (compilePath p False True))
                           [0..<length (snd (compilePath p False True))])),
                pm_pattern = \<lparr>pattern_path = p, pattern_caseSensitive = Some False,
                               pattern_end = Some True\<rparr>\<rparr>)"
  by (simp add: matchPath_def Let_def split: option.splits)

lemma matchPath_files_splat:
  "matchPath decodeLatin1 (PatternString ''/files/*'') ''/files/a/b.txt''
     = Some \<lparr>pm_params = [''*'' \<mapsto> Some ''a/b.txt''], pm_pathname = ''/files/a/b.txt'',
              pm_pathnameBase = ''/files'',
              pm_pattern = \<lparr>pattern_path = ''/files/*'', pattern_caseSensitive = Some False,
                             pattern_end = Some True\<rparr>\<rparr>"
proof -
  have n: "snd (compilePath ''/files/*'' False True) = [''*'']"
    by code_simp
  have e: "regex_exec (fst (compilePath ''/files/*'' False True)) ''/files/a/b.txt''
             = Some (0, 14, [Some ''a/b.txt''])"
    by code_simp
  have s: "slice ''/files/a/b.txt'' 0 14 = ''/files/a/b.txt''"
    by code_simp
  have d: "dropTrailingSlashes (take (length ''/files/a/b.txt'' - length ''a/b.txt'') ''/files/a/b.txt'')
             = ''/files''"
    by code_simp
  have c: "decodeLatin1 ''a/b.txt'' = Some ''a/b.txt''"
    by code_simp
  have z: "zip [''*''] [0..<length [''*'']] = [(''*'', 0)]"
    by code_simp
  have c1: "captureOrEmpty [Some ''a/b.txt''] 0 = ''a/b.txt''"
    by code_simp
  have f: "foldl (paramStep decodeLatin1 ''/files/a/b.txt'' [Some ''a/b.txt''])
             (Map.empty, dropTrailingSlashes ''/files/a/b.txt'') [(''*'', 0)]
           = ([''*'' \<mapsto> Some ''a/b.txt''], ''/files'')"
    unfolding foldl.simps paramStep_def prod.case Let_def c1 safelyDecodeURIComponent_def c
      option.case d
    by (simp add: setParam_def)
  show ?thesis
    by (simp only: matchPath_string e option.case prod.case s n z f fst_conv snd_conv)
qed

theorem matchPath_prefixes_witness:
  "matchPath decodeLatin1 (PatternString ''/files/*'') ''/files/a/b.txt''
     = Some \<lparr>pm_params = [''*'' \<mapsto> Some ''a/b.txt''], pm_pathname = ''/files/a/b.txt'',
              pm_pathnameBase = ''/files'',
              pm_pattern = \<lparr>pattern_path = ''/files/*'', pattern_caseSensitive = Some False,
                             pattern_end = Some True\<rparr>\<rparr>
   \<and> startsWith ''/files/a/b.txt'' ''/files''
   \<and> list_all (\<lambda>c. \<not> isLineTerminator c) ''/files/a/b.txt''
   \<and> \<not> endsWith ''/files'' ''/''"
proof -
  let ?m = "\<lparr>pm_params = [''*'' \<mapsto> Some ''a/b.txt''], pm_pathname = ''/files/a/b.txt'',
              pm_pathnameBase = ''/files'',
              pm_pattern = \<lparr>pattern_path = ''/files/*'', pattern_caseSensitive = Some False,
                             pattern_end = Some True\<rparr>\<rparr>"
  have l: "\<forall>c\<in>set ''/files/a/b.txt''. \<not> isLineTerminator c"
    by (simp add: isLineTerminator_def)
  have n: "''/files'' \<noteq> ''/''" by simp
  have "startsWith (pm_pathname ?m) (pm_pathnameBase ?m)
     \<and> startsWith ''/files/a/b.txt'' (pm_pathname ?m)
     \<and> (pm_pathnameBase ?m = ''/'' \<or> \<not> endsWith (pm_pathnameBase ?m) ''/'')"
    using matchPath_prefixes[of decodeLatin1 "PatternString ''/files/*''" "''/files/a/b.txt''" ?m]
      matchPath_files_splat l by blast
  then show ?thesis
    using matchPath_files_splat l n by (simp add: list_all_iff)
qed

text \<open>
  Without that condition C10 fails: \<open>/(.)\/+$/\<close> does not strip the slash behind a line
  feed, which \<open>.\<close> does not match, so for the pattern \<open>/:id\<close> and the pathname of a slash,
  a line feed and a slash, \<open>pathnameBase\<close> is the whole pathname and ends in a slash.
\<close>

theorem matchPath_line_terminator_counterexample:
  "map_option pm_pathnameBase (matchPath decodeLatin1 (PatternString ''/:id'') [CHR ''/'', CHR 0x0A, CHR ''/''])
     = Some [CHR ''/'', CHR 0x0A, CHR ''/'']
   \<and> endsWith [CHR ''/'', CHR 0x0A, CHR ''/''] ''/''"
  by code_simp

section \<open>generatePath and matchPath: the round trip\<close>

subsection \<open>The tokens of a pattern of segments\<close>

lemma not_word_slash [simp]: "\<not> isWordChar CHR ''/''"
  by (simp add: isWordChar_def)

lemma not_word_colon [simp]: "\<not> isWordChar CHR '':''"
  by (simp add: isWordChar_def)

lemma paramTokens_plain:
  "CHR '':'' \<notin> set s \<Longrightarrow> paramTokens (s @ rest) = map TChar s @ paramTokens rest"
  by (induction s) auto

lemma takeWhile_word:
  assumes "list_all isWordChar w" and "rest = [] \<or> \<not> isWordChar (hd rest)"
  shows "takeWhile isWordChar (w @ rest) = w" and "dropWhile isWordChar (w @ rest) = rest"
proof -
  have r: "takeWhile isWordChar rest = []" "dropWhile isWordChar rest = rest"
    using assms(2) by (cases rest; simp)+
  show "takeWhile isWordChar (w @ rest) = w"
    using assms(1) r by (simp add: list_all_iff takeWhile_append2)
  show "dropWhile isWordChar (w @ rest) = rest"
    using assms(1) r by (simp add: list_all_iff dropWhile_append2)
qed

lemma paramTokens_param:
  assumes "isParamSegment seg" and "rest = [] \<or> \<not> isWordChar (hd rest)"
  shows "paramTokens (seg @ rest) = TParam (tl seg) # paramTokens rest"
proof -
  obtain w where seg: "seg = CHR '':'' # w" and w: "w \<noteq> []" "list_all isWordChar w"
    using assms(1) by (auto simp: isParamSegment_def split: list.splits)
  show ?thesis
    using takeWhile_word[OF w(2) assms(2)] w(1) by (simp add: seg)
qed

lemma segmentPattern_Cons: "segmentPattern (seg # segs) = CHR ''/'' # seg @ segmentPattern segs"
  by (simp add: segmentPattern_def)

lemma segmentPattern_head: "segmentPattern segs = [] \<or> \<not> isWordChar (hd (segmentPattern segs))"
  by (cases segs) (simp_all add: segmentPattern_def)

lemma literal_no_colon: "isLiteralSegment seg \<Longrightarrow> CHR '':'' \<notin> set seg"
  by (auto simp: isLiteralSegment_def list_all_iff)

lemma param_not_literal: "isParamSegment seg \<Longrightarrow> \<not> isLiteralSegment seg"
  by (auto simp: isParamSegment_def isLiteralSegment_def split: list.splits)

lemma paramTokens_segments:
  "list_all (\<lambda>seg. isLiteralSegment seg \<or> isParamSegment seg) segs
   \<Longrightarrow> paramTokens (segmentPattern segs) = concat (map segTokens segs)"
proof (induction segs)
  case Nil
  then show ?case by (simp add: segmentPattern_def)
next
  case (Cons seg segs)
  have ih: "paramTokens (segmentPattern segs) = concat (map segTokens segs)"
    using Cons by simp
  show ?case
  proof (cases "isParamSegment seg")
    case True
    show ?thesis
      unfolding segmentPattern_Cons
      using paramTokens_param[OF True segmentPattern_head[of segs]] True ih
      by (simp add: segTokens_def[of seg])
  next
    case False
    then have "isLiteralSegment seg" using Cons.prems by simp
    then show ?thesis
      unfolding segmentPattern_Cons
      using paramTokens_plain[OF literal_no_colon] False ih
      by (simp add: segTokens_def[of seg])
  qed
qed


subsection \<open>The generated path\<close>

lemma interpolate_append:
  "interpolate params (ts @ us) =
     (case interpolate params ts of
        Inl e \<Rightarrow> Inl e
      | Inr s \<Rightarrow> (case interpolate params us of Inl e \<Rightarrow> Inl e | Inr t \<Rightarrow> Inr (s @ t)))"
proof (induction ts)
  case Nil
  then show ?case by (simp split: sum.splits)
next
  case (Cons t ts)
  then show ?case by (cases t) (simp_all split: sum.splits option.splits)
qed

lemma interpolate_chars: "interpolate params (map TChar s) = Inr s"
  by (induction s) simp_all

lemma covers_Cons:
  "covers params (seg # segs) =
     ((isParamSegment seg \<longrightarrow> (\<exists>v. ownValue params (tl seg) = Some v \<and> urlSafe v)) \<and> covers params segs)"
  by (auto simp: covers_def segmentNames_def split: option.splits)

lemma ownValue_Some: "(ownValue params name = Some v) = (params name = Some (Some v))"
  by (auto simp: ownValue_def split: option.splits)

lemma interpolate_segTokens:
  assumes "isParamSegment seg \<longrightarrow> (\<exists>v. ownValue params (tl seg) = Some v \<and> urlSafe v)"
  shows "interpolate params (segTokens seg) = Inr (CHR ''/'' # segmentText params seg)"
  using assms
  by (auto simp: segTokens_def segmentText_def interpolate_chars getParam_def ownValue_def
      split: option.splits)

lemma interpolate_segments:
  "covers params segs \<Longrightarrow>
   interpolate params (concat (map segTokens segs)) = Inr (segmentPath params segs)"
proof (induction segs)
  case Nil
  then show ?case by (simp add: segmentPath_def)
next
  case (Cons seg segs)
  then have c: "isParamSegment seg \<longrightarrow> (\<exists>v. ownValue params (tl seg) = Some v \<and> urlSafe v)"
    and ih: "interpolate params (concat (map segTokens segs)) = Inr (segmentPath params segs)"
    by (simp_all add: covers_Cons)
  have "interpolate params (segTokens seg) = Inr (CHR ''/'' # segmentText params seg)"
    using c by (rule interpolate_segTokens[of seg params])
  then show ?case
    by (simp add: interpolate_append ih segmentPath_def)
qed

text \<open>A segment's text is not empty, holds no slash and does not end in a star.\<close>

lemma unreserved_chars: "isUnreserved c \<Longrightarrow> c \<noteq> CHR ''/'' \<and> c \<noteq> CHR ''*'' \<and> c \<noteq> CHR ''%''"
  by (auto simp: isUnreserved_def isWordChar_def)

lemma urlSafe_chars:
  assumes "urlSafe v"
  shows "v \<noteq> []" and "CHR ''/'' \<notin> set v" and "last v \<noteq> CHR ''*''" and "CHR ''%'' \<notin> set v"
proof -
  show ne: "v \<noteq> []" using assms by (simp add: urlSafe_def)
  have u: "\<And>c. c \<in> set v \<Longrightarrow> isUnreserved c"
    using assms by (simp add: urlSafe_def list_all_iff)
  show "CHR ''/'' \<notin> set v" using u unreserved_chars by blast
  show "CHR ''%'' \<notin> set v" using u unreserved_chars by blast
  have "isUnreserved (last v)" using u ne by simp
  then show "last v \<noteq> CHR ''*''" using unreserved_chars by blast
qed

lemma literal_chars:
  assumes "isLiteralSegment seg"
  shows "seg \<noteq> []" and "CHR ''/'' \<notin> set seg" and "last seg \<noteq> CHR ''*''"
proof -
  show ne: "seg \<noteq> []" using assms by (simp add: isLiteralSegment_def)
  have u: "\<And>c. c \<in> set seg \<Longrightarrow> c \<noteq> CHR ''/'' \<and> c \<noteq> CHR ''*''"
    using assms by (simp add: isLiteralSegment_def list_all_iff)
  show "CHR ''/'' \<notin> set seg" using u by blast
  have "last seg \<in> set seg" using ne by simp
  then show "last seg \<noteq> CHR ''*''" using u by blast
qed

lemma segmentText_shape:
  assumes "isLiteralSegment seg \<or> isParamSegment seg"
    and "isParamSegment seg \<longrightarrow> (\<exists>v. ownValue params (tl seg) = Some v \<and> urlSafe v)"
  shows "segmentText params seg \<noteq> [] \<and> CHR ''/'' \<notin> set (segmentText params seg)
    \<and> last (segmentText params seg) \<noteq> CHR ''*''"
proof (cases "isParamSegment seg")
  case True
  then obtain v where v: "ownValue params (tl seg) = Some v" "urlSafe v" using assms(2) by blast
  have "segmentText params seg = v" using True v by (simp add: segmentText_def)
  then show ?thesis using urlSafe_chars[OF v(2)] by simp
next
  case False
  then have l: "isLiteralSegment seg" using assms(1) by simp
  have "segmentText params seg = seg" using False by (simp add: segmentText_def)
  then show ?thesis using literal_chars[OF l] by simp
qed

lemma segmentPath_snoc:
  "segmentPath params (segs @ [seg]) = segmentPath params segs @ CHR ''/'' # segmentText params seg"
  by (simp add: segmentPath_def)

lemma endsWith_star: "endsWith s ''*'' = (s \<noteq> [] \<and> last s = CHR ''*'')"
proof (cases s rule: rev_cases)
  case Nil
  then show ?thesis by (simp add: endsWith_def)
next
  case (snoc ys y)
  then show ?thesis by (auto simp: endsWith_def)
qed

lemma generatePath_segments:
  assumes ne: "segs \<noteq> []"
    and sh: "list_all (\<lambda>seg. isLiteralSegment seg \<or> isParamSegment seg) segs"
    and cv: "covers params segs"
  shows "generatePath (segmentPattern segs) params = Inr (segmentPath params segs)"
proof -
  obtain init seg where s: "segs = init @ [seg]"
    using ne by (cases segs rule: rev_cases) auto
  have "isLiteralSegment seg \<or> isParamSegment seg" using sh s by simp
  moreover have "isParamSegment seg \<longrightarrow> (\<exists>v. ownValue params (tl seg) = Some v \<and> urlSafe v)"
    using cv s by (auto simp: covers_def segmentNames_def split: option.splits)
  ultimately have t: "segmentText params seg \<noteq> []" "last (segmentText params seg) \<noteq> CHR ''*''"
    using segmentText_shape[of seg params] by blast+
  have "\<not> endsWith (segmentPath params segs) ''*''"
    unfolding s segmentPath_snoc endsWith_star using t by simp
  then show ?thesis
    by (simp add: generatePath_def paramTokens_segments[OF sh] interpolate_segments[OF cv])
qed


subsection \<open>The compiled pattern\<close>

lemma segment_chars:
  assumes "isLiteralSegment seg \<or> isParamSegment seg"
  shows "seg \<noteq> []" and "CHR ''/'' \<notin> set seg" and "last seg \<noteq> CHR ''*''"
proof -
  have "seg \<noteq> [] \<and> CHR ''/'' \<notin> set seg \<and> last seg \<noteq> CHR ''*''"
  proof (cases "isParamSegment seg")
    case True
    then obtain w where seg: "seg = CHR '':'' # w" and w: "w \<noteq> []" "list_all isWordChar w"
      by (auto simp: isParamSegment_def split: list.splits)
    have "isWordChar (last w)" using w by (simp add: list_all_iff)
    moreover have "\<not> isWordChar CHR ''*''" by (simp add: isWordChar_def)
    ultimately have "last w \<noteq> CHR ''*''" by auto
    then show ?thesis using isParamSegment_shape(1)[OF True] seg w by simp
  next
    case False
    then show ?thesis using assms literal_chars[of seg] by simp
  qed
  then show "seg \<noteq> []" and "CHR ''/'' \<notin> set seg" and "last seg \<noteq> CHR ''*''" by simp_all
qed

lemma stripTrailingSlashes_id: "s \<noteq> [] \<Longrightarrow> last s \<noteq> CHR ''/'' \<Longrightarrow> stripTrailingSlashes s = s"
  by (cases s rule: rev_cases) (simp_all add: stripTrailingSlashes_def)

lemma segmentPattern_shape:
  assumes ne: "segs \<noteq> []"
    and sh: "list_all (\<lambda>seg. isLiteralSegment seg \<or> isParamSegment seg) segs"
  shows "\<not> endsWith (segmentPattern segs) ''*''"
    and "stripTrailingSplat (segmentPattern segs) = segmentPattern segs"
    and "leadingSlash (segmentPattern segs) = segmentPattern segs"
proof -
  obtain init seg where s: "segs = init @ [seg]"
    using ne by (cases segs rule: rev_cases) auto
  have "isLiteralSegment seg \<or> isParamSegment seg" using sh s by simp
  note c = segment_chars[OF this]
  have p: "segmentPattern segs = (segmentPattern init @ ''/'') @ seg"
    by (simp add: s segmentPattern_def)
  have l: "last (segmentPattern segs) = last seg" "segmentPattern segs \<noteq> []"
    unfolding p using c(1) by simp_all
  have "last seg \<noteq> CHR ''/''" using c(1,2) last_in_set by metis
  then show e: "\<not> endsWith (segmentPattern segs) ''*''"
    and "stripTrailingSplat (segmentPattern segs) = segmentPattern segs"
    using l c(3) by (simp_all add: endsWith_star stripTrailingSplat_def stripTrailingSlashes_id)
  obtain seg1 rest where s1: "segs = seg1 # rest" using ne by (cases segs) auto
  have "isLiteralSegment seg1 \<or> isParamSegment seg1" using sh s1 by simp
  note c1 = segment_chars[OF this]
  have "hd seg1 \<noteq> CHR ''/''" using c1(1,2) hd_in_set by metis
  then have "dropWhile (\<lambda>c. c = CHR ''/'') (seg1 @ segmentPattern rest) = seg1 @ segmentPattern rest"
    using c1(1) by (cases seg1) simp_all
  then show "leadingSlash (segmentPattern segs) = segmentPattern segs"
    by (simp add: s1 segmentPattern_Cons leadingSlash_def)
qed

lemma tokenNames_append: "tokenNames (ts @ us) = tokenNames ts @ tokenNames us"
  by (induction ts rule: tokenNames.induct) simp_all

lemma tokenNames_chars: "tokenNames (map TChar s) = []"
  by (induction s) simp_all

lemma tokenNames_segments: "tokenNames (concat (map segTokens segs)) = segmentNames segs"
  by (induction segs)
    (simp_all add: segmentNames_def tokenNames_append segTokens_def tokenNames_chars)

lemma compilePath_segments:
  assumes ne: "segs \<noteq> []"
    and sh: "list_all (\<lambda>seg. isLiteralSegment seg \<or> isParamSegment seg) segs"
  shows "compilePath (segmentPattern segs) False True =
     (\<lparr>re_source = seqs (RBol # map tokenRegex (concat (map segTokens segs)) @ toTheEnd),
       re_ignoreCase = True\<rparr>,
      segmentNames segs)"
  unfolding compilePath_def Let_def
  using segmentPattern_shape[OF ne sh]
  by (simp add: paramTokens_segments[OF sh] tokenNames_segments)

subsection \<open>The match\<close>

lemma canonicalize_slash: "(canonicalize x = canonicalize CHR ''/'') = (x = CHR ''/'')"
proof -
  have s: "canonicalize CHR ''/'' = CHR ''/''"
    by (simp add: canonicalize_def Let_def)
  have "canonicalize x = CHR ''/'' \<Longrightarrow> x = CHR ''/''"
  proof -
    assume a: "canonicalize x = CHR ''/''"
    let ?n = "of_char x :: nat"
    let ?C = "(97 \<le> ?n \<and> ?n \<le> 122) \<or> (224 \<le> ?n \<and> ?n \<le> 254 \<and> ?n \<noteq> 247)"
    have c: "canonicalize x = (if ?C then char_of (?n - 32) else x)"
      by (simp add: canonicalize_def Let_def)
    show "x = CHR ''/''"
    proof (cases ?C)
      case True
      then have "canonicalize x = char_of (?n - 32)" unfolding c by (rule if_P)
      then have "of_char (char_of (?n - 32) :: char) = (of_char CHR ''/'' :: nat)"
        using a by simp
      then have "(?n - 32) mod 256 = 47" by simp
      moreover have "?n - 32 < 256" using True by auto
      ultimately show ?thesis using True by auto
    next
      case False
      then have "canonicalize x = x" unfolding c by (rule if_not_P)
      then show ?thesis using a by simp
    qed
  qed
  then show ?thesis using s by auto
qed

lemma drop_eq_Cons:
  assumes "drop i s = c # xs"
  shows "i < length s" and "s ! i = c" and "drop (Suc i) s = xs"
proof -
  show l: "i < length s" using assms by (cases "i < length s") simp_all
  from Cons_nth_drop_Suc[OF l] assms show "s ! i = c" and "drop (Suc i) s = xs" by simp_all
qed

lemma rmatch_literal_run:
  "drop i s = t @ rest \<Longrightarrow>
   rmatch True s (seqs (map tokenRegex (map TChar t) @ R)) (i, caps)
     = rmatch True s (seqs R) (i + length t, caps)"
proof (induction t arbitrary: i)
  case Nil
  then show ?case by simp
next
  case (Cons c t)
  from drop_eq_Cons[of i s c "t @ rest"] Cons.prems
  have l: "i < length s" "s ! i = c" "drop (Suc i) s = t @ rest" by simp_all
  show ?case using l Cons.IH[OF l(3)] by simp
qed

lemma takeWhile_run:
  assumes "\<And>x. x \<in> set v \<Longrightarrow> P x" and "rest = [] \<or> \<not> P (hd rest)"
  shows "takeWhile P (v @ rest) = v"
proof -
  have "takeWhile P rest = []" using assms(2) by (cases rest) simp_all
  then show ?thesis using assms(1) by (simp add: takeWhile_append2)
qed

lemma rmatch_group_run:
  assumes d: "drop i s = v @ rest" and v: "v \<noteq> []" "CHR ''/'' \<notin> set v"
    and r: "rest = [] \<or> hd rest = CHR ''/''"
  shows "\<exists>others. rmatch True s (RGroup (RPlus (NotLit CHR ''/''))) (i, caps)
           = (i + length v, caps @ [Some v]) # others"
proof -
  let ?cc = "NotLit CHR ''/''"
  have "takeWhile (cclass_match True ?cc) (v @ rest) = v"
  proof (rule takeWhile_run)
    fix x assume "x \<in> set v"
    then show "cclass_match True ?cc x" using v(2) by (auto simp: canonicalize_slash)
  next
    show "rest = [] \<or> \<not> cclass_match True ?cc (hd rest)"
      using r by (auto simp: canonicalize_slash)
  qed
  then have n: "run True ?cc s i = length v" by (simp add: run_def d)
  obtain k where k: "length v = Suc k" using v(1) by (cases v) simp_all
  have u: "rev [Suc 0..<Suc (length v)] = length v # rev [Suc 0..<length v]"
    by (simp add: k)
  have sl: "slice s i (i + length v) = v" by (simp add: slice_def d)
  have "rmatch True s (RGroup (RPlus ?cc)) (i, caps)
          = map (\<lambda>k. (i + k, (caps @ [None])[length caps := Some (slice s i (i + k))]))
              (rev [Suc 0..<Suc (length v)])"
    by (simp add: n comp_def del: upt_Suc)
  also have "\<dots> = (i + length v, caps @ [Some v])
                  # map (\<lambda>k. (i + k, (caps @ [None])[length caps := Some (slice s i (i + k))]))
                      (rev [Suc 0..<length v])"
    unfolding u by (simp add: sl)
  finally show ?thesis by blast
qed


lemma segmentPath_Cons:
  "segmentPath params (seg # segs) = CHR ''/'' # segmentText params seg @ segmentPath params segs"
  by (simp add: segmentPath_def)

lemma segmentPath_head: "segmentPath params segs = [] \<or> hd (segmentPath params segs) = CHR ''/''"
  by (cases segs) (simp_all add: segmentPath_def)

lemma rmatch_segments:
  assumes "list_all (\<lambda>seg. isLiteralSegment seg \<or> isParamSegment seg) segs"
    and "covers params segs"
    and "drop i s = segmentPath params segs" and "i \<le> length s"
  shows "\<exists>others. rmatch True s (seqs (map tokenRegex (concat (map segTokens segs)) @ toTheEnd)) (i, caps)
           = (length s, caps @ map (\<lambda>seg. Some (segmentText params seg)) (filter isParamSegment segs))
             # others"
  using assms
proof (induction segs arbitrary: i caps)
  case Nil
  then have i: "i = length s" by (simp add: segmentPath_def)
  have "run True (Lit CHR ''/'') s (length s) = 0" by (simp add: run_def)
  then show ?case by (simp add: i toTheEnd_def)
next
  case (Cons seg segs)
  let ?text = "segmentText params seg"
  let ?R = "map tokenRegex (concat (map segTokens segs)) @ toTheEnd"
  have sh: "isLiteralSegment seg \<or> isParamSegment seg"
    and shs: "list_all (\<lambda>seg. isLiteralSegment seg \<or> isParamSegment seg) segs"
    using Cons.prems(1) by simp_all
  have cv: "isParamSegment seg \<longrightarrow> (\<exists>v. ownValue params (tl seg) = Some v \<and> urlSafe v)"
    and cvs: "covers params segs"
    using Cons.prems(2) by (simp_all add: covers_Cons)
  have t: "?text \<noteq> []" "CHR ''/'' \<notin> set ?text"
    using segmentText_shape[of seg params] sh cv by simp_all
  have d: "drop i s = CHR ''/'' # ?text @ segmentPath params segs"
    using Cons.prems(3) by (simp add: segmentPath_Cons)
  have len: "length s - i = Suc (length ?text + length (segmentPath params segs))"
    using arg_cong[OF d, of length] by simp
  let ?j = "i + Suc (length ?text)"
  have dj: "drop ?j s = segmentPath params segs"
    using arg_cong[OF d, of "drop (Suc (length ?text))"] by (simp add: add.commute)
  have jl: "?j \<le> length s" using len by simp
  show ?case
  proof (cases "isParamSegment seg")
    case False
    have tx: "?text = seg" using False by (simp add: segmentText_def)
    have "rmatch True s (seqs (map tokenRegex (concat (map segTokens (seg # segs))) @ toTheEnd)) (i, caps)
            = rmatch True s (seqs (map tokenRegex (map TChar (CHR ''/'' # seg)) @ ?R)) (i, caps)"
      using False by (simp add: segTokens_def[of seg])
    also have "\<dots> = rmatch True s (seqs ?R) (i + length (CHR ''/'' # seg), caps)"
      by (rule rmatch_literal_run[of i s "CHR ''/'' # seg" "segmentPath params segs"])
        (simp add: d[unfolded tx])
    finally have e: "rmatch True s (seqs (map tokenRegex (concat (map segTokens (seg # segs))) @ toTheEnd)) (i, caps)
            = rmatch True s (seqs ?R) (?j, caps)"
      by (simp add: tx)
    show ?thesis
      unfolding e using Cons.IH[OF shs cvs dj jl, of caps] False by simp
  next
    case True
    have "rmatch True s (seqs (map tokenRegex (concat (map segTokens (seg # segs))) @ toTheEnd)) (i, caps)
            = rmatch True s (seqs (map tokenRegex (map TChar ''/'')
                 @ (RGroup (RPlus (NotLit CHR ''/'')) # ?R))) (i, caps)"
      using True by (simp add: segTokens_def[of seg])
    also have "\<dots> = rmatch True s (seqs (RGroup (RPlus (NotLit CHR ''/'')) # ?R)) (i + length ''/'', caps)"
      by (rule rmatch_literal_run[of i s "''/''" "?text @ segmentPath params segs"]) (simp add: d)
    finally have e: "rmatch True s (seqs (map tokenRegex (concat (map segTokens (seg # segs))) @ toTheEnd)) (i, caps)
            = concat (map (rmatch True s (seqs ?R))
                 (rmatch True s (RGroup (RPlus (NotLit CHR ''/''))) (Suc i, caps)))"
      by simp
    have ds: "drop (Suc i) s = ?text @ segmentPath params segs"
      using drop_eq_Cons(3)[OF d] .
    obtain others where g: "rmatch True s (RGroup (RPlus (NotLit CHR ''/''))) (Suc i, caps)
           = (Suc i + length ?text, caps @ [Some ?text]) # others"
      using rmatch_group_run[OF ds t segmentPath_head] by blast
    obtain others' where ih: "rmatch True s (seqs ?R) (?j, caps @ [Some ?text])
           = (length s, (caps @ [Some ?text])
                @ map (\<lambda>seg. Some (segmentText params seg)) (filter isParamSegment segs)) # others'"
      using Cons.IH[OF shs cvs dj jl, of "caps @ [Some ?text]"] by blast
    show ?thesis
      unfolding e g using ih True by simp
  qed
qed

lemma exec_at_zero:
  assumes "rmatch ic s r (0, []) = (j, caps) # others"
  shows "regex_exec \<lparr>re_source = r, re_ignoreCase = ic\<rparr> s = Some (0, j, caps)"
proof -
  have u: "[0..<Suc (length s)] = 0 # [Suc 0..<Suc (length s)]"
    by (rule upt_conv_Cons) simp
  show ?thesis
    unfolding regex_exec_def u using assms by simp
qed

subsection \<open>The parameters\<close>

lemma captured_names:
  "covers params segs \<Longrightarrow>
   map (\<lambda>seg. Some (segmentText params seg)) (filter isParamSegment segs)
     = map (ownValue params) (segmentNames segs)"
proof (induction segs)
  case Nil
  then show ?case by (simp add: segmentNames_def)
next
  case (Cons seg segs)
  then have cv: "isParamSegment seg \<longrightarrow> (\<exists>v. ownValue params (tl seg) = Some v \<and> urlSafe v)"
    and ih: "map (\<lambda>seg. Some (segmentText params seg)) (filter isParamSegment segs)
               = map (ownValue params) (segmentNames segs)"
    by (simp_all add: covers_Cons)
  have sn: "segmentNames (seg # segs)
              = (if isParamSegment seg then tl seg # segmentNames segs else segmentNames segs)"
    by (simp add: segmentNames_def)
  show ?case using cv ih by (auto simp: sn segmentText_def)
qed

lemma params_fold:
  assumes "\<And>name. name \<in> set names \<Longrightarrow> \<exists>v. ownValue params name = Some v \<and> dec v = Some v"
    and "''__proto__'' \<notin> set names"
  shows "fst (foldl (paramStep dec mp (pre @ map (ownValue params) names)) (memo, b)
                (zip names [length pre..<length pre + length names]))
           = memo ++ (params |` set names)"
  using assms
proof (induction names arbitrary: pre memo b)
  case Nil
  then show ?case by simp
next
  case (Cons n ns)
  obtain v where v: "ownValue params n = Some v" "dec v = Some v"
    using Cons.prems(1)[of n] by auto
  have pv: "params n = Some (Some v)" using v(1) by (simp add: ownValue_Some)
  have np: "n \<noteq> ''__proto__''" using Cons.prems(2) by auto
  let ?caps = "pre @ map (ownValue params) (n # ns)"
  have z: "zip (n # ns) [length pre..<length pre + length (n # ns)]
             = (n, length pre) # zip ns [length (pre @ [ownValue params n])..<length (pre @ [ownValue params n]) + length ns]"
    using upt_conv_Cons[of "length pre" "length pre + length (n # ns)"] by simp
  have c: "captureOrEmpty ?caps (length pre) = v"
    by (simp add: captureOrEmpty_def v)
  define b' where "b' = snd (paramStep dec mp ?caps (memo, b) (n, length pre))"
  have "fst (paramStep dec mp ?caps (memo, b) (n, length pre)) = memo(n \<mapsto> Some v)"
    unfolding paramStep_def prod.case c safelyDecodeURIComponent_def v(2) option.case
    using np by (simp add: setParam_def)
  then have st: "paramStep dec mp ?caps (memo, b) (n, length pre) = (memo(n \<mapsto> Some v), b')"
    unfolding b'_def by (metis prod.collapse)
  have caps: "?caps = (pre @ [ownValue params n]) @ map (ownValue params) ns" by simp
  have ih: "fst (foldl (paramStep dec mp ((pre @ [ownValue params n]) @ map (ownValue params) ns)) (memo(n \<mapsto> Some v), b')
                (zip ns [length (pre @ [ownValue params n])..<length (pre @ [ownValue params n]) + length ns]))
           = memo(n \<mapsto> Some v) ++ (params |` set ns)"
    by (rule Cons.IH) (use Cons.prems in auto)
  have m: "memo(n \<mapsto> Some v) ++ (params |` set ns) = memo ++ (params |` set (n # ns))"
    by (rule ext) (auto simp: map_add_def restrict_map_def pv split: option.splits)
  show ?case
    unfolding z foldl_Cons st unfolding caps ih m ..
qed

lemma decodeLatin1_plain: "CHR ''%'' \<notin> set v \<Longrightarrow> decodeLatin1 v = Some v"
  by (induction v) auto

subsection \<open>The round trip\<close>

lemma matchPath_segments:
  assumes ne: "segs \<noteq> []"
    and sh: "list_all (\<lambda>seg. isLiteralSegment seg \<or> isParamSegment seg) segs"
    and cv: "covers params segs"
    and dc: "\<forall>v. urlSafe v \<longrightarrow> dec v = Some v"
    and np: "''__proto__'' \<notin> set (segmentNames segs)"
  shows "map_option pm_params (matchPath dec (PatternString (segmentPattern segs)) (segmentPath params segs))
           = Some (params |` set (segmentNames segs))"
    and "map_option pm_pathname (matchPath dec (PatternString (segmentPattern segs)) (segmentPath params segs))
           = Some (segmentPath params segs)"
proof -
  let ?path = "segmentPath params segs"
  let ?names = "segmentNames segs"
  let ?r = "seqs (map tokenRegex (concat (map segTokens segs)) @ toTheEnd)"
  obtain others where m: "rmatch True ?path ?r (0, [])
           = (length ?path, [] @ map (\<lambda>seg. Some (segmentText params seg)) (filter isParamSegment segs))
             # others"
    using rmatch_segments[OF sh cv, of 0 ?path "[]"] by auto
  have caps: "[] @ map (\<lambda>seg. Some (segmentText params seg)) (filter isParamSegment segs)
                = [] @ map (ownValue params) ?names"
    by (simp add: captured_names[OF cv])
  have "rmatch True ?path (RSeq RBol ?r) (0, []) = (length ?path, [] @ map (ownValue params) ?names) # others"
    using m caps by simp
  then have e: "regex_exec \<lparr>re_source = RSeq RBol ?r, re_ignoreCase = True\<rparr> ?path
                  = Some (0, length ?path, [] @ map (ownValue params) ?names)"
    by (rule exec_at_zero)
  have c: "compilePath (segmentPattern segs) False True
             = (\<lparr>re_source = RSeq RBol ?r, re_ignoreCase = True\<rparr>, ?names)"
    using compilePath_segments[OF ne sh] by simp
  have nm: "\<And>name. name \<in> set ?names \<Longrightarrow> \<exists>v. ownValue params name = Some v \<and> dec v = Some v"
    using cv dc by (auto simp: covers_def list_all_iff split: option.splits)
  have f: "fst (foldl (paramStep dec ?path ([] @ map (ownValue params) ?names)) (Map.empty, b)
                  (zip ?names [length ([]::string option list)..<length ([]::string option list) + length ?names]))
             = Map.empty ++ (params |` set ?names)" for b
    by (rule params_fold[OF nm np])
  have sl: "slice ?path 0 (length ?path) = ?path" by (simp add: slice_def)
  show "map_option pm_params (matchPath dec (PatternString (segmentPattern segs)) ?path)
           = Some (params |` set ?names)"
    unfolding matchPath_string c fst_conv snd_conv e option.case prod.case sl
    using f by simp
  show "map_option pm_pathname (matchPath dec (PatternString (segmentPattern segs)) ?path)
           = Some ?path"
    unfolding matchPath_string c fst_conv snd_conv e option.case prod.case sl
    by simp
qed


text \<open>
  C6, as the code has it.  Take a pattern \<open>/s1/.../sn\<close> of one or more segments, each a
  literal (not empty, without slash, colon and star) or \<open>:name\<close> with a name other than
  \<open>__proto__\<close>, and a parameter object that holds, as an own property, a value of
  unreserved characters that is not empty for every name of the pattern.  Then
  \<open>generatePath\<close> returns the pattern with each \<open>:name\<close> replaced by its value, \<open>matchPath\<close>
  matches the pattern on that path, and the parameters of the match are the given ones
  at the names of the pattern: the given object itself when it has no other properties.
  The decoder is any that leaves a text of unreserved characters as it is.
\<close>

theorem generatePath_matchPath_round_trip:
  "segs \<noteq> [] \<and> list_all (\<lambda>seg. isLiteralSegment seg \<or> isParamSegment seg) segs
     \<and> ''__proto__'' \<notin> set (segmentNames segs)
     \<and> covers params segs \<and> (\<forall>v. urlSafe v \<longrightarrow> dec v = Some v)
   \<longrightarrow> generatePath (segmentPattern segs) params = Inr (segmentPath params segs)
       \<and> map_option pm_params
             (matchPath dec (PatternString (segmentPattern segs)) (segmentPath params segs))
           = Some (params |` set (segmentNames segs))
       \<and> map_option pm_pathname
             (matchPath dec (PatternString (segmentPattern segs)) (segmentPath params segs))
           = Some (segmentPath params segs)
       \<and> (dom params \<subseteq> set (segmentNames segs)
            \<longrightarrow> map_option pm_params
                  (matchPath dec (PatternString (segmentPattern segs)) (segmentPath params segs))
                = Some params)"
proof (intro impI conjI)
  assume a: "segs \<noteq> [] \<and> list_all (\<lambda>seg. isLiteralSegment seg \<or> isParamSegment seg) segs
     \<and> ''__proto__'' \<notin> set (segmentNames segs)
     \<and> covers params segs \<and> (\<forall>v. urlSafe v \<longrightarrow> dec v = Some v)"
  then have ne: "segs \<noteq> []"
    and sh: "list_all (\<lambda>seg. isLiteralSegment seg \<or> isParamSegment seg) segs"
    and np: "''__proto__'' \<notin> set (segmentNames segs)"
    and cv: "covers params segs" and dc: "\<forall>v. urlSafe v \<longrightarrow> dec v = Some v"
    by simp_all
  show "generatePath (segmentPattern segs) params = Inr (segmentPath params segs)"
    by (rule generatePath_segments[OF ne sh cv])
  show p: "map_option pm_params
             (matchPath dec (PatternString (segmentPattern segs)) (segmentPath params segs))
           = Some (params |` set (segmentNames segs))"
    by (rule matchPath_segments(1)[OF ne sh cv dc np])
  show "map_option pm_pathname
             (matchPath dec (PatternString (segmentPattern segs)) (segmentPath params segs))
           = Some (segmentPath params segs)"
    by (rule matchPath_segments(2)[OF ne sh cv dc np])
  assume dm: "dom params \<subseteq> set (segmentNames segs)"
  have "(params |` set (segmentNames segs)) x = params x" for x
  proof (cases "x \<in> set (segmentNames segs)")
    case True
    then show ?thesis by (simp add: restrict_map_def)
  next
    case False
    then have "x \<notin> dom params" using dm by blast
    then have "params x = None" by (simp add: domIff)
    then show ?thesis using False by (simp add: restrict_map_def)
  qed
  then have "params |` set (segmentNames segs) = params"
    by (rule ext)
  then show "map_option pm_params
                  (matchPath dec (PatternString (segmentPattern segs)) (segmentPath params segs))
                = Some params"
    using p by simp
qed

theorem generatePath_matchPath_round_trip_witness:
  "list_all (\<lambda>seg. isLiteralSegment seg \<or> isParamSegment seg) [''users'', '':id'']
   \<and> ''__proto__'' \<notin> set (segmentNames [''users'', '':id''])
   \<and> covers [''id'' \<mapsto> Some ''42''] [''users'', '':id'']
   \<and> generatePath ''/users/:id'' [''id'' \<mapsto> Some ''42''] = Inr ''/users/42''
   \<and> map_option pm_params (matchPath decodeLatin1 (PatternString ''/users/:id'') ''/users/42'')
       = Some [''id'' \<mapsto> Some ''42'']"
proof -
  let ?segs = "[''users'', '':id'']"
  let ?params = "[''id'' \<mapsto> Some ''42'']"
  have sh: "list_all (\<lambda>seg. isLiteralSegment seg \<or> isParamSegment seg) ?segs"
    by (simp add: isLiteralSegment_def isParamSegment_def isWordChar_def)
  have n: "segmentNames ?segs = [''id'']"
    by (simp add: segmentNames_def isParamSegment_def isWordChar_def)
  have np: "''__proto__'' \<notin> set (segmentNames ?segs)"
    by (simp add: n)
  have u: "urlSafe ''42''"
    by (simp add: urlSafe_def isUnreserved_def isWordChar_def)
  have cv: "covers ?params ?segs"
    by (simp add: covers_def n u ownValue_def)
  have dc: "\<forall>v. urlSafe v \<longrightarrow> decodeLatin1 v = Some v"
    using urlSafe_chars(4) decodeLatin1_plain by blast
  have p: "segmentPattern ?segs = ''/users/:id''"
    by (simp add: segmentPattern_def)
  have t: "segmentPath ?params ?segs = ''/users/42''"
    by (simp add: segmentPath_def segmentText_def isParamSegment_def isWordChar_def ownValue_def)
  have d: "dom ?params \<subseteq> set (segmentNames ?segs)"
    by (simp add: n)
  show ?thesis
    using generatePath_matchPath_round_trip[of ?segs ?params decodeLatin1] sh np cv dc d
    unfolding p t by simp
qed

text \<open>
  C6 fails for a pattern with no slash at its head, since the matcher always starts
  with one: the path generated from \<open>users/:id\<close> does not match \<open>users/:id\<close>.
\<close>

theorem generatePath_relative_counterexample:
  "generatePath ''users/:id'' [''id'' \<mapsto> Some ''1''] = Inr ''users/1''
   \<and> matchPath decodeLatin1 (PatternString ''users/:id'') ''users/1'' = None"
proof -
  have g: "generatePath ''users/:id'' [''id'' \<mapsto> Some ''1''] = Inr ''users/1''"
    by code_simp
  have "regex_exec (fst (compilePath ''users/:id'' False True)) ''users/1'' = None"
    by code_simp
  then have "matchPath decodeLatin1 (PatternString ''users/:id'') ''users/1'' = None"
    by (simp add: matchPath_string)
  then show ?thesis using g by simp
qed

text \<open>
  It fails for the name \<open>__proto__\<close> too, which \<open>matchPath\<close> cannot store in its result;
  and a name that the parameter object only inherits is interpolated, not reported as
  missing.
\<close>

lemma matchPath_proto_not_stored:
  "generatePath ''/:__proto__'' [''__proto__'' \<mapsto> Some ''x''] = Inr ''/x''
   \<and> map_option pm_params (matchPath decodeLatin1 (PatternString ''/:__proto__'') ''/x'')
       = Some Map.empty"
proof -
  have g: "generatePath ''/:__proto__'' [''__proto__'' \<mapsto> Some ''x''] = Inr ''/x''"
    by code_simp
  have n: "snd (compilePath ''/:__proto__'' False True) = [''__proto__'']"
    by code_simp
  have e: "regex_exec (fst (compilePath ''/:__proto__'' False True)) ''/x'' = Some (0, 2, [Some ''x''])"
    by code_simp
  have z: "zip [''__proto__''] [0..<length [''__proto__'']] = [(''__proto__'', 0)]"
    by code_simp
  have "map_option pm_params (matchPath decodeLatin1 (PatternString ''/:__proto__'') ''/x'')
          = Some Map.empty"
    by (simp only: matchPath_string e option.case prod.case n z)
      (simp add: paramStep_def setParam_def)
  then show ?thesis using g by simp
qed

lemma generatePath_inherited_name:
  "generatePath ''/:toString'' Map.empty = Inr ''/function toString() { [native code] }''
   \<and> generatePath ''/:toString'' [''toString'' \<mapsto> None] = Inl (MissingParam ''toString'')
   \<and> generatePath ''/:id'' Map.empty = Inl (MissingParam ''id'')"
  by code_simp

end
